theory Spec2Isabelle
  imports Main
begin

section \<open>Data model\<close>

text \<open>
  The task row of \<^verbatim>\<open>lib/supabase/rest.ts\<close> (interface \<^verbatim>\<open>TodoRecord\<close>).  The field
  \<^verbatim>\<open>id\<close> is called \<open>todo_id\<close> here, because \<open>id\<close> is the identity function of HOL.
  A JavaScript \<^verbatim>\<open>number\<close> that holds a rank or an index is an \<open>int\<close>;
  \<^verbatim>\<open>string | null\<close> is a \<open>string option\<close>.

  A title is a JavaScript string on which the code calls \<^verbatim>\<open>trim\<close>, which looks at every
  character: it is the list of its UTF-16 code units, numbers below \<open>65536\<close>.  The ids,
  the column lists, the time stamps and the messages are only compared, joined and
  searched for ASCII words; they are \<open>string\<close>s.
\<close>

type_synonym utf16 = "nat list"

definition utf16_of :: "string \<Rightarrow> utf16" where
  "utf16_of s = map of_char s"

record TodoRecord =
  todo_id :: string
  title :: utf16
  is_completed :: bool
  position :: int
  parent_id :: "string option"
  created_at :: string
  updated_at :: string

text \<open>
  JavaScript truthiness of a \<^verbatim>\<open>string | null\<close> value, as tested by
  \<^verbatim>\<open>if (todo.parent_id)\<close> and \<^verbatim>\<open>if (!title)\<close>: \<^verbatim>\<open>null\<close> and the empty string are falsy.
\<close>

definition truthy :: "string option \<Rightarrow> bool" where
  "truthy v = (case v of None \<Rightarrow> False | Some s \<Rightarrow> s \<noteq> [])"

section \<open>Ordering engine (components/todo-app.tsx)\<close>

text \<open>\<^verbatim>\<open>Array.prototype.findIndex\<close>: the first index whose element satisfies the test, else \<open>-1\<close>.\<close>

fun findIndex :: "('a \<Rightarrow> bool) \<Rightarrow> 'a list \<Rightarrow> int" where
  "findIndex P [] = - 1"
| "findIndex P (x # xs) =
     (if P x then 0 else (let r = findIndex P xs in if r = - 1 then - 1 else r + 1))"

text \<open>
  The start index that \<^verbatim>\<open>Array.prototype.splice\<close> computes from its first argument on
  an array of length \<open>n\<close>: a negative argument counts from the end, and the result is
  clamped to \<open>0..n\<close>.
\<close>

definition splice_start :: "nat \<Rightarrow> int \<Rightarrow> nat" where
  "splice_start n i = (if i < 0 then nat (max (int n + i) 0) else min (nat i) n)"

text \<open>
  \<^verbatim>\<open>arrayMove(items, fromIndex, toIndex)\<close>: \<^verbatim>\<open>splice(fromIndex, 1)\<close> removes one element
  (none when the start is the length, then \<^verbatim>\<open>moved\<close> is undefined and \<^verbatim>\<open>items\<close> is
  returned), \<^verbatim>\<open>splice(toIndex, 0, moved)\<close> inserts it.  The elements are task objects,
  which are always truthy, so \<^verbatim>\<open>!moved\<close> holds only for the undefined case.
\<close>

definition arrayMove :: "'a list \<Rightarrow> int \<Rightarrow> int \<Rightarrow> 'a list" where
  "arrayMove items fromIndex toIndex =
     (let s = splice_start (length items) fromIndex in
      if length items \<le> s then items
      else (let moved = items ! s;
                next = take s items @ drop (Suc s) items;
                u = splice_start (length next) toIndex
            in take u next @ moved # drop u next))"

text \<open>
  \<^verbatim>\<open>Array.prototype.map\<close> with a callback that takes the element and its index.
\<close>

fun map_from :: "nat \<Rightarrow> ('a \<Rightarrow> nat \<Rightarrow> 'b) \<Rightarrow> 'a list \<Rightarrow> 'b list" where
  "map_from k f [] = []"
| "map_from k f (x # xs) = f x k # map_from (Suc k) f xs"

definition map_indexed :: "('a \<Rightarrow> nat \<Rightarrow> 'b) \<Rightarrow> 'a list \<Rightarrow> 'b list" where
  "map_indexed f xs = map_from 0 f xs"

text \<open>\<^verbatim>\<open>normalizePositions\<close>: \<^verbatim>\<open>items.map((todo, index) => ({ ...todo, position: index }))\<close>.\<close>

definition normalizePositions :: "TodoRecord list \<Rightarrow> TodoRecord list" where
  "normalizePositions items = map_indexed (\<lambda>todo index. todo\<lparr>position := int index\<rparr>) items"

text \<open>
  The state updater that \<^verbatim>\<open>handlePointerMove\<close> passes to \<^verbatim>\<open>setTodos\<close> while the item
  \<^verbatim>\<open>activeId\<close> is dragged over the item \<^verbatim>\<open>overId\<close>; the second component is the
  closure variable \<^verbatim>\<open>moved\<close>.
\<close>

definition dragOver :: "TodoRecord list \<Rightarrow> string \<Rightarrow> string \<Rightarrow> TodoRecord list \<times> bool" where
  "dragOver previous activeId overId =
     (let fromIndex = findIndex (\<lambda>todo. todo_id todo = activeId) previous;
          toIndex = findIndex (\<lambda>todo. todo_id todo = overId) previous
      in if fromIndex = - 1 \<or> toIndex = - 1 \<or> fromIndex = toIndex then (previous, False)
         else (normalizePositions (arrayMove previous fromIndex toIndex), True))"

section \<open>Record store client (lib/supabase/rest.ts with the optional columns)\<close>

text \<open>
  The result of an awaited promise.  Everything the client throws is an \<^verbatim>\<open>Error\<close>, so a
  rejection carries its message.
\<close>

datatype 'a outcome = Fulfilled 'a | Rejected string

text \<open>
  \<^verbatim>\<open>Promise.all\<close>: fulfilled with all the values when every promise fulfils, rejected with
  the reason of the first promise that rejects.  The list is read in the order in which
  the promises settle; that order only decides which message is reported when several
  promises reject.
\<close>

fun promise_all :: "'a outcome list \<Rightarrow> 'a list outcome" where
  "promise_all [] = Fulfilled []"
| "promise_all (Rejected m # rest) = Rejected m"
| "promise_all (Fulfilled v # rest) =
     (case promise_all rest of Fulfilled vs \<Rightarrow> Fulfilled (v # vs) | Rejected m \<Rightarrow> Rejected m)"

text \<open>
  The module variables \<^verbatim>\<open>supportsPositionColumn\<close> and \<^verbatim>\<open>supportsParentColumn\<close>
  (\<^verbatim>\<open>boolean | null\<close>, initially \<^verbatim>\<open>null\<close>).
\<close>

record client =
  supportsPositionColumn :: "bool option"
  supportsParentColumn :: "bool option"

definition initial_client :: client where
  "initial_client = \<lparr>supportsPositionColumn = None, supportsParentColumn = None\<rparr>"

definition baseColumns :: string where
  "baseColumns = ''id,title,is_completed,created_at,updated_at''"

definition parentColumns :: string where
  "parentColumns = baseColumns @ '',parent_id''"

definition positionedColumns :: string where
  "positionedColumns = parentColumns @ '',position''"

definition positionedNoParentColumns :: string where
  "positionedNoParentColumns = baseColumns @ '',position''"

text \<open>
  The body of a \<^verbatim>\<open>PATCH\<close>: any subset of the four mutable fields.  \<^verbatim>\<open>parent_id\<close> can be
  present with the value \<^verbatim>\<open>null\<close>.
\<close>

record patch =
  patch_title :: "utf16 option"
  patch_is_completed :: "bool option"
  patch_position :: "int option"
  patch_parent_id :: "string option option"

definition empty_patch :: patch where
  "empty_patch = \<lparr>patch_title = None, patch_is_completed = None, patch_position = None,
     patch_parent_id = None\<rparr>"

text \<open>
  The requests the client sends to \<^verbatim>\<open>/rest/v1/todos\<close>: the method with the query
  parameters, the \<^verbatim>\<open>Prefer\<close> header and the body.  The base URL and the key headers are
  the same on every request and are left out.
\<close>

datatype request =
    GetTodos string "string list"
  | PostTodo string utf16 "int option"
  | PatchTodo string "string option" string patch
  | DeleteTodo string

text \<open>A row as the store returns it (\<^verbatim>\<open>Partial<TodoRecord>\<close>): every column may be missing.\<close>

record api_row =
  row_id :: "string option"
  row_title :: "utf16 option"
  row_is_completed :: "bool option"
  row_position :: "int option"
  row_parent_id :: "string option"
  row_created_at :: "string option"
  row_updated_at :: "string option"

text \<open>
  A row of a list response, which \<^verbatim>\<open>listTodos\<close> casts to \<^verbatim>\<open>TodoRecord[]\<close> and spreads:
  the base columns are there, \<^verbatim>\<open>position\<close> and \<^verbatim>\<open>parent_id\<close> may be \<^verbatim>\<open>null\<close> or missing.
\<close>

record list_row =
  lr_id :: string
  lr_title :: utf16
  lr_is_completed :: bool
  lr_position :: "int option"
  lr_parent_id :: "string option"
  lr_created_at :: string
  lr_updated_at :: string

record error_payload =
  message :: "string option"
  details :: "string option"
  hint :: "string option"

text \<open>
  A \<^verbatim>\<open>Response\<close>: \<^verbatim>\<open>ok\<close>, the text \<^verbatim>\<open>status statusText\<close>, and the JSON body read as the
  type each caller casts it to (\<open>error_json\<close> is \<open>None\<close> when \<^verbatim>\<open>response.json()\<close> throws).
\<close>

record response =
  ok :: bool
  status_line :: string
  error_json :: "error_payload option"
  list_json :: "list_row list"
  rows_json :: "api_row list"

text \<open>\<^verbatim>\<open>fetch\<close>: a rejection is a transport failure.\<close>

type_synonym fetch = "request \<Rightarrow> response outcome"

definition missing_env_message :: string where
  "missing_env_message = ''Missing NEXT_PUBLIC_SUPABASE_URL or NEXT_PUBLIC_SUPABASE_ANON_KEY.''"

text \<open>
  \<^verbatim>\<open>throwOnError\<close>: nothing for an \<^verbatim>\<open>ok\<close> response; otherwise it throws the payload's
  message (else the status line), followed by the details and the hint when present.
\<close>

definition error_message :: "response \<Rightarrow> string" where
  "error_message resp =
     (case error_json resp of
        None \<Rightarrow> status_line resp
      | Some payload \<Rightarrow>
          (let m0 = status_line resp;
               m1 = (if truthy (message payload) then the (message payload) else m0);
               m2 = (if truthy (details payload) then m1 @ '' ('' @ the (details payload) @ '')'' else m1);
               m3 = (if truthy (hint payload) then m2 @ '' Hint: '' @ the (hint payload) else m2)
           in m3))"

definition throwOnError :: "response \<Rightarrow> unit outcome" where
  "throwOnError resp = (if ok resp then Fulfilled () else Rejected (error_message resp))"

text \<open>
  \<^verbatim>\<open>String.prototype.toLowerCase\<close> on the ASCII letters and \<^verbatim>\<open>String.prototype.includes\<close>.
\<close>

definition lower_char :: "char \<Rightarrow> char" where
  "lower_char c =
     (case map_of (zip ''ABCDEFGHIJKLMNOPQRSTUVWXYZ'' ''abcdefghijklmnopqrstuvwxyz'') c of
        Some d \<Rightarrow> d | None \<Rightarrow> c)"

definition toLowerCase :: "string \<Rightarrow> string" where
  "toLowerCase s = map lower_char s"

fun starts_with :: "string \<Rightarrow> string \<Rightarrow> bool" where
  "starts_with s [] = True"
| "starts_with [] (c # cs) = False"
| "starts_with (x # xs) (c # cs) = (x = c \<and> starts_with xs cs)"

fun str_includes :: "string \<Rightarrow> string \<Rightarrow> bool" where
  "str_includes [] sub = (sub = [])"
| "str_includes (x # xs) sub = (starts_with (x # xs) sub \<or> str_includes xs sub)"

definition default_load_failure :: string where
  "default_load_failure = ''Failed to load todos from Supabase.''"

text \<open>\<^verbatim>\<open>payload.message ?? fallbackReason\<close>, inside the \<^verbatim>\<open>try\<close> that keeps the fallback.\<close>

definition fallbackReason_of :: "response \<Rightarrow> string" where
  "fallbackReason_of resp =
     (case error_json resp of
        None \<Rightarrow> default_load_failure
      | Some payload \<Rightarrow> (case message payload of None \<Rightarrow> default_load_failure | Some m \<Rightarrow> m))"

definition isMissingParentColumn :: "string \<Rightarrow> bool" where
  "isMissingParentColumn fallbackReason =
     (str_includes (toLowerCase fallbackReason) ''parent_id'' \<and>
      (str_includes (toLowerCase fallbackReason) ''column'' \<or>
       str_includes (toLowerCase fallbackReason) ''does not exist''))"

definition missingPositionColumn :: "string \<Rightarrow> bool" where
  "missingPositionColumn fallbackReason =
     (str_includes (toLowerCase fallbackReason) ''position'' \<and>
      (str_includes (toLowerCase fallbackReason) ''column'' \<or>
       str_includes (toLowerCase fallbackReason) ''does not exist''))"

definition positioned_order :: "string list" where
  "positioned_order = [''position.asc.nullslast'', ''created_at.asc'']"

text \<open>The three shapes \<^verbatim>\<open>listTodos\<close> gives to a returned row.\<close>

definition row_with_position :: "list_row \<Rightarrow> nat \<Rightarrow> TodoRecord" where
  "row_with_position row index =
     \<lparr>todo_id = lr_id row, title = lr_title row, is_completed = lr_is_completed row,
      position = (case lr_position row of Some p \<Rightarrow> p | None \<Rightarrow> int index),
      parent_id = lr_parent_id row,
      created_at = lr_created_at row, updated_at = lr_updated_at row\<rparr>"

definition row_without_parent :: "list_row \<Rightarrow> nat \<Rightarrow> TodoRecord" where
  "row_without_parent row index =
     \<lparr>todo_id = lr_id row, title = lr_title row, is_completed = lr_is_completed row,
      position = (case lr_position row of Some p \<Rightarrow> p | None \<Rightarrow> int index),
      parent_id = None,
      created_at = lr_created_at row, updated_at = lr_updated_at row\<rparr>"

definition row_fallback :: "list_row \<Rightarrow> nat \<Rightarrow> TodoRecord" where
  "row_fallback row index =
     \<lparr>todo_id = lr_id row, title = lr_title row, is_completed = lr_is_completed row,
      position = int index,
      parent_id = None,
      created_at = lr_created_at row, updated_at = lr_updated_at row\<rparr>"

text \<open>
  \<^verbatim>\<open>listTodos\<close>.  The first argument is \<^verbatim>\<open>hasSupabaseEnv\<close> (\<^verbatim>\<open>getConfig\<close> throws without
  it).  The result is the new value of the two module variables and the outcome.
\<close>

definition listTodos :: "bool \<Rightarrow> fetch \<Rightarrow> client \<Rightarrow> client \<times> TodoRecord list outcome" where
  "listTodos env fetch cl =
     (if \<not> env then (cl, Rejected missing_env_message)
      else case fetch (GetTodos positionedColumns positioned_order) of
        Rejected m \<Rightarrow> (cl, Rejected m)
      | Fulfilled withPositionResponse \<Rightarrow>
          if ok withPositionResponse then
            (cl\<lparr>supportsPositionColumn := Some True, supportsParentColumn := Some True\<rparr>,
             Fulfilled (map_indexed row_with_position (list_json withPositionResponse)))
          else
            (let fallbackReason = fallbackReason_of withPositionResponse in
             if isMissingParentColumn fallbackReason then
               (case fetch (GetTodos positionedNoParentColumns positioned_order) of
                  Rejected m \<Rightarrow> (cl, Rejected m)
                | Fulfilled withoutParentResponse \<Rightarrow>
                    (case throwOnError withoutParentResponse of
                       Rejected m \<Rightarrow> (cl, Rejected m)
                     | Fulfilled u \<Rightarrow>
                         (cl\<lparr>supportsPositionColumn := Some True, supportsParentColumn := Some False\<rparr>,
                          Fulfilled (map_indexed row_without_parent (list_json withoutParentResponse)))))
             else if \<not> missingPositionColumn fallbackReason then (cl, Rejected fallbackReason)
             else
               (case fetch (GetTodos baseColumns [''created_at.asc'']) of
                  Rejected m \<Rightarrow> (cl, Rejected m)
                | Fulfilled fallbackResponse \<Rightarrow>
                    (case throwOnError fallbackResponse of
                       Rejected m \<Rightarrow> (cl, Rejected m)
                     | Fulfilled u \<Rightarrow>
                         (cl\<lparr>supportsPositionColumn := Some False, supportsParentColumn := Some False\<rparr>,
                          Fulfilled (map_indexed row_fallback (list_json fallbackResponse)))))))"

definition currentSelectColumns :: "client \<Rightarrow> string" where
  "currentSelectColumns cl =
     (if supportsPositionColumn cl = Some False then
        (if supportsParentColumn cl = Some False then baseColumns else parentColumns)
      else (if supportsParentColumn cl = Some False then positionedNoParentColumns
            else positionedColumns))"

text \<open>
  \<^verbatim>\<open>normalizeTodoFromApi\<close>; \<open>now\<close> stands for \<^verbatim>\<open>new Date().toISOString()\<close>.
\<close>

definition normalizeTodoFromApi :: "string \<Rightarrow> api_row \<Rightarrow> int \<Rightarrow> TodoRecord" where
  "normalizeTodoFromApi now row fallbackPosition =
     \<lparr>todo_id = (case row_id row of Some v \<Rightarrow> v | None \<Rightarrow> []),
      title = (case row_title row of Some v \<Rightarrow> v | None \<Rightarrow> []),
      is_completed = (case row_is_completed row of Some v \<Rightarrow> v | None \<Rightarrow> False),
      position = (case row_position row of Some v \<Rightarrow> v | None \<Rightarrow> max 0 fallbackPosition),
      parent_id = row_parent_id row,
      created_at = (case row_created_at row of Some v \<Rightarrow> v | None \<Rightarrow> now),
      updated_at = (case row_updated_at row of Some v \<Rightarrow> v | None \<Rightarrow> now)\<rparr>"

definition isPositioningEnabled :: "client \<Rightarrow> bool" where
  "isPositioningEnabled cl = (supportsPositionColumn cl \<noteq> Some False)"

definition createTodo :: "bool \<Rightarrow> fetch \<Rightarrow> string \<Rightarrow> client \<Rightarrow> utf16 \<Rightarrow> int \<Rightarrow> TodoRecord outcome" where
  "createTodo env fetch now cl ttl pos =
     (if \<not> env then Rejected missing_env_message
      else case fetch (PostTodo (currentSelectColumns cl) ttl
                  (if supportsPositionColumn cl = Some False then None else Some pos)) of
        Rejected m \<Rightarrow> Rejected m
      | Fulfilled resp \<Rightarrow>
          (case throwOnError resp of
             Rejected m \<Rightarrow> Rejected m
           | Fulfilled u \<Rightarrow>
               (case rows_json resp of
                  [] \<Rightarrow> Rejected ''Supabase did not return the new todo row.''
                | first # others \<Rightarrow> Fulfilled (normalizeTodoFromApi now first pos))))"

definition updateTodo :: "bool \<Rightarrow> fetch \<Rightarrow> string \<Rightarrow> client \<Rightarrow> string \<Rightarrow> patch \<Rightarrow> TodoRecord outcome" where
  "updateTodo env fetch now cl ident updates =
     (if \<not> env then Rejected missing_env_message
      else case fetch (PatchTodo ident (Some (currentSelectColumns cl)) ''return=representation'' updates) of
        Rejected m \<Rightarrow> Rejected m
      | Fulfilled resp \<Rightarrow>
          (case throwOnError resp of
             Rejected m \<Rightarrow> Rejected m
           | Fulfilled u \<Rightarrow>
               (case rows_json resp of
                  [] \<Rightarrow> Rejected ''Todo not found.''
                | first # others \<Rightarrow>
                    Fulfilled (normalizeTodoFromApi now first
                      (case patch_position updates of Some p \<Rightarrow> p | None \<Rightarrow> 0)))))"

text \<open>
  \<^verbatim>\<open>updateTodoPositions\<close>.  The callback of \<^verbatim>\<open>orderedIds.map\<close> runs up to its first
  \<^verbatim>\<open>await\<close> for every id before anything settles, so every request is sent; the first
  component of the result is the list of requests sent, the second the outcome of the
  \<^verbatim>\<open>Promise.all\<close>.
\<close>

definition position_request :: "string \<Rightarrow> nat \<Rightarrow> request" where
  "position_request ident index =
     PatchTodo ident None ''return=minimal'' (empty_patch\<lparr>patch_position := Some (int index)\<rparr>)"

definition update_position :: "fetch \<Rightarrow> string \<Rightarrow> nat \<Rightarrow> unit outcome" where
  "update_position fetch ident index =
     (case fetch (position_request ident index) of
        Rejected m \<Rightarrow> Rejected m
      | Fulfilled resp \<Rightarrow> throwOnError resp)"

definition updateTodoPositions :: "bool \<Rightarrow> fetch \<Rightarrow> client \<Rightarrow> string list \<Rightarrow> request list \<times> unit outcome" where
  "updateTodoPositions env fetch cl orderedIds =
     (if supportsPositionColumn cl = Some False then ([], Fulfilled ())
      else if \<not> env then ([], Rejected missing_env_message)
      else (map_indexed position_request orderedIds,
            (case promise_all (map_indexed (update_position fetch) orderedIds) of
               Fulfilled us \<Rightarrow> Fulfilled ()
             | Rejected m \<Rightarrow> Rejected m)))"

definition deleteTodo :: "bool \<Rightarrow> fetch \<Rightarrow> string \<Rightarrow> unit outcome" where
  "deleteTodo env fetch ident =
     (if \<not> env then Rejected missing_env_message
      else case fetch (DeleteTodo ident) of
        Rejected m \<Rightarrow> Rejected m
      | Fulfilled resp \<Rightarrow> throwOnError resp)"

text \<open>
  A session of the client: the calls the user interface can make, each against the
  current value of the module variables.  Only \<^verbatim>\<open>listTodos\<close> assigns them.
\<close>

datatype client_call =
    ListCall
  | CreateCall utf16 int
  | UpdateCall string patch
  | RepositionCall "string list"
  | DeleteCall string

fun client_step :: "bool \<Rightarrow> fetch \<Rightarrow> client \<Rightarrow> client_call \<Rightarrow> client" where
  "client_step env fetch cl ListCall = fst (listTodos env fetch cl)"
| "client_step env fetch cl (CreateCall ttl pos) = cl"
| "client_step env fetch cl (UpdateCall ident updates) = cl"
| "client_step env fetch cl (RepositionCall orderedIds) = cl"
| "client_step env fetch cl (DeleteCall ident) = cl"

definition client_session :: "bool \<Rightarrow> fetch \<Rightarrow> client \<Rightarrow> client_call list \<Rightarrow> client" where
  "client_session env fetch cl calls = foldl (client_step env fetch) cl calls"

text \<open>
  A store whose schema has no \<^verbatim>\<open>position\<close> column: every request that selects or orders
  by the column, or writes it, is answered with an error response.
\<close>

fun mentions_position :: "request \<Rightarrow> bool" where
  "mentions_position (GetTodos select order) =
     (str_includes select ''position'' \<or> list_ex (\<lambda>column. str_includes column ''position'') order)"
| "mentions_position (PostTodo select ttl pos) = (str_includes select ''position'' \<or> pos \<noteq> None)"
| "mentions_position (PatchTodo ident select prefer updates) =
     ((case select of None \<Rightarrow> False | Some columns \<Rightarrow> str_includes columns ''position'') \<or>
      patch_position updates \<noteq> None)"
| "mentions_position (DeleteTodo ident) = False"

definition lacks_position_column :: "fetch \<Rightarrow> bool" where
  "lacks_position_column fetch =
     (\<forall>req. mentions_position req \<longrightarrow> (case fetch req of Rejected m \<Rightarrow> True | Fulfilled resp \<Rightarrow> \<not> ok resp))"

section \<open>Interaction controller: state and calls\<close>

text \<open>
  The React state of the \<^verbatim>\<open>TodoApp\<close> component, the fields the handlers below read or
  write; each version of the component has a subset of them.  \<open>latestTodosRef\<close> is the
  ref that an effect sets to \<^verbatim>\<open>todos\<close> after every render.
\<close>

datatype TodoFilter = FilterAll | FilterOpen | FilterDone

datatype drag_intent = IntentNest | IntentUnnest

record ui =
  todos :: "TodoRecord list"
  latestTodosRef :: "TodoRecord list"
  busyId :: "string option"
  error :: "string option"
  editingId :: "string option"
  editingTitle :: utf16
  todoFilter :: TodoFilter
  showCompleted :: bool
  draggingId :: "string option"
  draggingIds :: "string list"
  dragHorizontalIntent :: "drag_intent option"
  positioningAvailable :: bool
  isSavingOrder :: bool
  activeTodoId :: "string option"
  selectedTodoIds :: "string list"
  selectionAnchorId :: "string option"

text \<open>The effect \<^verbatim>\<open>useEffect(() => { latestTodosRef.current = todos; }, [todos])\<close>.\<close>

definition render :: "ui \<Rightarrow> ui" where
  "render st = st\<lparr>latestTodosRef := todos st\<rparr>"

text \<open>
  The functions a handler imports from the client, and the calls it makes to them, in
  the order in which it makes them.  A handler is modelled as one uninterrupted run: it
  takes the state when it starts and gives the state when its last continuation has run,
  with the calls it made.
\<close>

record api =
  api_deleteTodo :: "string \<Rightarrow> unit outcome"
  api_updateTodo :: "string \<Rightarrow> patch \<Rightarrow> TodoRecord outcome"
  api_updateTodoPositions :: "string list \<Rightarrow> unit outcome"

datatype api_call =
    CallDeleteTodo string
  | CallUpdateTodo string patch
  | CallUpdateTodoPositions "string list"

text \<open>The client above, as the handlers see it.\<close>

definition rest_api :: "bool \<Rightarrow> fetch \<Rightarrow> string \<Rightarrow> client \<Rightarrow> api" where
  "rest_api env fetch now cl =
     \<lparr>api_deleteTodo = deleteTodo env fetch,
      api_updateTodo = updateTodo env fetch now cl,
      api_updateTodoPositions = (\<lambda>orderedIds. snd (updateTodoPositions env fetch cl orderedIds))\<rparr>"

text \<open>
  \<^verbatim>\<open>String.prototype.trim\<close> removes from both ends the code units that ECMAScript calls
  white space or line terminators: TAB, LF, VT, FF, CR, SPACE, NO-BREAK SPACE
  (\<open>U+00A0\<close>), \<open>U+1680\<close>, \<open>U+2000\<close> to \<open>U+200A\<close>, the line and paragraph separators
  \<open>U+2028\<close> and \<open>U+2029\<close>, \<open>U+202F\<close>, \<open>U+205F\<close>, \<open>U+3000\<close> and the byte order mark
  \<open>U+FEFF\<close>.  Each is a single code unit.
\<close>

definition is_space :: "nat \<Rightarrow> bool" where
  "is_space c =
     (c \<in> set [0x09, 0x0A, 0x0B, 0x0C, 0x0D, 0x20, 0xA0, 0x1680,
                0x2000, 0x2001, 0x2002, 0x2003, 0x2004, 0x2005, 0x2006, 0x2007, 0x2008, 0x2009,
                0x200A, 0x2028, 0x2029, 0x202F, 0x205F, 0x3000, 0xFEFF])"

definition trim :: "utf16 \<Rightarrow> utf16" where
  "trim s = rev (dropWhile is_space (rev (dropWhile is_space s)))"

definition replace_updated :: "TodoRecord \<Rightarrow> TodoRecord list \<Rightarrow> TodoRecord list" where
  "replace_updated updated previous =
     map (\<lambda>item. if todo_id item = todo_id updated then updated else item) previous"

definition title_patch :: "utf16 \<Rightarrow> patch" where
  "title_patch ttl = empty_patch\<lparr>patch_title := Some ttl\<rparr>"

definition parent_patch :: "string option \<Rightarrow> patch" where
  "parent_patch p = empty_patch\<lparr>patch_parent_id := Some p\<rparr>"

section \<open>The flat list with drag reorder (components/todo-app.tsx)\<close>

definition handleDelete :: "bool \<Rightarrow> api \<Rightarrow> ui \<Rightarrow> string \<Rightarrow> ui \<times> api_call list" where
  "handleDelete env a st ident =
     (if \<not> env \<or> truthy (busyId st) then (st, [])
      else case api_deleteTodo a ident of
        Fulfilled u \<Rightarrow>
          (let st1 = st\<lparr>error := None,
                        todos := normalizePositions (filter (\<lambda>item. todo_id item \<noteq> ident) (todos st))\<rparr>;
               st2 = (if editingId st = Some ident then st1\<lparr>editingId := None, editingTitle := []\<rparr>
                      else st1)
           in (render (st2\<lparr>busyId := None\<rparr>), [CallDeleteTodo ident]))
      | Rejected m \<Rightarrow> (st\<lparr>error := Some m, busyId := None\<rparr>, [CallDeleteTodo ident]))"

text \<open>
  \<^verbatim>\<open>saveEdit\<close> of \<^verbatim>\<open>components/todo-app.tsx\<close> (the two older flat versions have the same
  body, one of them also keeps a focus ref).
\<close>

definition saveEdit :: "bool \<Rightarrow> api \<Rightarrow> ui \<Rightarrow> ui \<times> api_call list" where
  "saveEdit env a st =
     (if \<not> env \<or> \<not> truthy (editingId st) \<or> truthy (busyId st) then (st, [])
      else (let ttl = trim (editingTitle st) in
        if ttl = [] then (st\<lparr>error := Some ''Todo title cannot be empty.''\<rparr>, [])
        else case api_updateTodo a (the (editingId st)) (title_patch ttl) of
          Fulfilled updated \<Rightarrow>
            (render (st\<lparr>error := None, todos := replace_updated updated (todos st),
                editingId := None, editingTitle := [], busyId := None\<rparr>),
             [CallUpdateTodo (the (editingId st)) (title_patch ttl)])
        | Rejected m \<Rightarrow>
            (st\<lparr>error := Some m, busyId := None\<rparr>,
             [CallUpdateTodo (the (editingId st)) (title_patch ttl)])))"

text \<open>
  A drag gesture: \<^verbatim>\<open>startDrag\<close>, then pointer moves over other items, then the pointer goes
  up.  \<open>moved\<close> is the closure variable of \<^verbatim>\<open>startDrag\<close>.
\<close>

definition canReorder :: "bool \<Rightarrow> ui \<Rightarrow> bool" where
  "canReorder env st =
     (env \<and> todoFilter st = FilterAll \<and> \<not> truthy (editingId st) \<and> \<not> truthy (busyId st) \<and>
      positioningAvailable st)"

definition startDrag :: "bool \<Rightarrow> ui \<Rightarrow> string \<Rightarrow> ui option" where
  "startDrag env st activeId =
     (if \<not> canReorder env st then None
      else Some (st\<lparr>error := None, draggingId := Some activeId\<rparr>))"

definition handlePointerMove :: "string \<Rightarrow> ui \<times> bool \<Rightarrow> string option \<Rightarrow> ui \<times> bool" where
  "handlePointerMove activeId sm overId =
     (case sm of (st, moved) \<Rightarrow>
        if \<not> truthy overId \<or> overId = Some activeId then (st, moved)
        else (let r = dragOver (todos st) activeId (the overId)
              in (render (st\<lparr>todos := fst r\<rparr>), moved \<or> snd r)))"

definition handlePointerUp :: "api \<Rightarrow> ui \<times> bool \<Rightarrow> ui \<times> api_call list" where
  "handlePointerUp a sm =
     (case sm of (st, moved) \<Rightarrow>
        (let st1 = st\<lparr>draggingId := None\<rparr> in
         if \<not> moved then (st1, [])
         else if \<not> positioningAvailable st1 then (st1, [])
         else (let orderedIds = map todo_id (latestTodosRef st1) in
               case api_updateTodoPositions a orderedIds of
                 Fulfilled u \<Rightarrow> (st1\<lparr>isSavingOrder := False\<rparr>, [CallUpdateTodoPositions orderedIds])
               | Rejected m \<Rightarrow>
                   (st1\<lparr>error := Some m, isSavingOrder := False\<rparr>,
                    [CallUpdateTodoPositions orderedIds]))))"

definition drag_gesture :: "bool \<Rightarrow> api \<Rightarrow> ui \<Rightarrow> string \<Rightarrow> string option list \<Rightarrow> ui \<times> api_call list" where
  "drag_gesture env a st activeId overIds =
     (case startDrag env st activeId of
        None \<Rightarrow> (st, [])
      | Some st1 \<Rightarrow> handlePointerUp a (foldl (handlePointerMove activeId) (st1, False) overIds))"

section \<open>The flat list with keyboard reorder (an older components/todo-app.tsx)\<close>

text \<open>
  \<^verbatim>\<open>moveTodoByOffset\<close>.  \<open>moveTodoByOffset_updater\<close> is the state updater it passes to
  \<^verbatim>\<open>setTodos\<close>: its first component is the next state, its second the value the updater
  leaves in the local variable \<^verbatim>\<open>moved\<close>.  The function returns \<^verbatim>\<open>moved\<close> right after
  queueing the updater, and React decides when the updater runs: \<open>updaterRan\<close> says whether it
  has run by then.  The result of \<open>moveTodoByOffset\<close> is the state once the updater has
  run, with the value the function has returned.
\<close>

definition moveTodoByOffset_updater ::
  "TodoRecord list \<Rightarrow> string \<Rightarrow> int \<Rightarrow> TodoRecord list \<times> bool" where
  "moveTodoByOffset_updater previous activeId offset =
     (let fromIndex = findIndex (\<lambda>todo. todo_id todo = activeId) previous in
      if fromIndex = - 1 then (previous, False)
      else (let toIndex = fromIndex + offset in
            if toIndex < 0 \<or> int (length previous) \<le> toIndex then (previous, False)
            else (normalizePositions (arrayMove previous fromIndex toIndex), True)))"

definition moveTodoByOffset ::
  "bool \<Rightarrow> TodoRecord list \<Rightarrow> string \<Rightarrow> int \<Rightarrow> TodoRecord list \<times> bool" where
  "moveTodoByOffset updaterRan previous activeId offset =
     (let updated = moveTodoByOffset_updater previous activeId offset
      in (fst updated, updaterRan \<and> snd updated))"

section \<open>The nested list with selection blocks (a later components/todo-app.tsx)\<close>

text \<open>
  \<^verbatim>\<open>new Map(items.map((todo) => [todo.id, todo]))\<close> and
  \<^verbatim>\<open>new Map(items.map((todo, index) => [todo.id, index]))\<close>: a later entry replaces an
  earlier one with the same key; \<open>indexById\<close> is \<open>-1\<close> for a missing key, as
  \<^verbatim>\<open>indexById.get(id) ?? -1\<close>.
\<close>

definition byId :: "TodoRecord list \<Rightarrow> string \<Rightarrow> TodoRecord option" where
  "byId items = map_of (map (\<lambda>todo. (todo_id todo, todo)) (rev items))"

definition indexById :: "TodoRecord list \<Rightarrow> string \<Rightarrow> int" where
  "indexById items k =
     (let r = findIndex (\<lambda>todo. todo_id todo = k) (rev items)
      in if r = - 1 then - 1 else int (length items) - 1 - r)"

text \<open>\<^verbatim>\<open>xs.splice(start, 0, ...ys)\<close>.\<close>

definition splice_insert :: "'a list \<Rightarrow> int \<Rightarrow> 'a list \<Rightarrow> 'a list" where
  "splice_insert xs start ys = (let u = splice_start (length xs) start in take u xs @ ys @ drop u xs)"

text \<open>The block that a gesture acts on: the selected items in list order, else the active item.\<close>

definition select_block :: "TodoRecord list \<Rightarrow> string list \<Rightarrow> string \<Rightarrow> TodoRecord list" where
  "select_block items selectedIds activeId =
     (let orderedSelected = filter (\<lambda>todo. todo_id todo \<in> set selectedIds) items
      in if orderedSelected \<noteq> [] then orderedSelected
         else filter (\<lambda>todo. todo_id todo = activeId) items)"

text \<open>\<^verbatim>\<open>xs.some((todo, index) => todo.id !== items[index]?.id)\<close>.\<close>

definition ids_differ :: "TodoRecord list \<Rightarrow> TodoRecord list \<Rightarrow> bool" where
  "ids_differ xs items =
     list_ex (\<lambda>b. b)
       (map_indexed (\<lambda>todo index. length items \<le> index \<or> todo_id todo \<noteq> todo_id (items ! index)) xs)"

definition compactAndMoveSelection ::
  "TodoRecord list \<Rightarrow> string list \<Rightarrow> string \<Rightarrow> int \<Rightarrow> TodoRecord list \<times> bool" where
  "compactAndMoveSelection items selectedIds activeId offset =
     (let block = select_block items selectedIds activeId in
      if block = [] then (items, False)
      else (let anchorIndex = findIndex (\<lambda>todo. todo_id todo = todo_id (hd block)) items in
        if anchorIndex = - 1 then (items, False)
        else (let blockSet = set (map todo_id block);
                  stationary = filter (\<lambda>todo. todo_id todo \<notin> blockSet) items;
                  compacted = splice_insert stationary anchorIndex block;
                  canMoveUp = (offset < 0 \<and> 0 < anchorIndex);
                  canMoveDown = (0 < offset \<and> anchorIndex + int (length block) < int (length compacted))
              in if \<not> canMoveUp \<and> \<not> canMoveDown then
                   (let changed = ids_differ compacted items
                    in (if changed then normalizePositions compacted else items, changed))
                 else (let withoutBlock = filter (\<lambda>todo. todo_id todo \<notin> blockSet) compacted;
                           nextStart = anchorIndex + offset;
                           moved = splice_insert withoutBlock nextStart block;
                           changed = ids_differ moved items
                       in (if changed then normalizePositions moved else items, changed)))))"

definition compactSelectionAtAnchor ::
  "TodoRecord list \<Rightarrow> string list \<Rightarrow> string \<Rightarrow> (TodoRecord list \<times> TodoRecord list \<times> int) option" where
  "compactSelectionAtAnchor items selectedIds activeId =
     (let block = select_block items selectedIds activeId in
      if block = [] then None
      else (let anchorIndex = findIndex (\<lambda>todo. todo_id todo = todo_id (hd block)) items in
        if anchorIndex = - 1 then None
        else (let blockSet = set (map todo_id block);
                  stationary = filter (\<lambda>todo. todo_id todo \<notin> blockSet) items;
                  compacted = splice_insert stationary anchorIndex block
              in Some (compacted, block, anchorIndex))))"

text \<open>
  \<^verbatim>\<open>normalizeMovedParentsAfterReorder\<close>.  The \<^verbatim>\<open>while\<close> loop rewrites the parent of the
  task at index \<open>ti\<close> of the copied array in place, and the maps hold the same objects,
  so each round reads the array as the rounds before left it.  Nothing bounds the loop:
  it is a partial function, and \<open>None\<close> says that it does not return.
\<close>

partial_function (option) climb_parents ::
  "TodoRecord list \<Rightarrow> nat \<Rightarrow> bool \<Rightarrow> (TodoRecord list \<times> bool) option" where
  "climb_parents next ti changed =
     (let todo = next ! ti in
      if \<not> truthy (parent_id todo) then Some (next, changed)
      else (case byId next (the (parent_id todo)) of
          None \<Rightarrow> Some (next[ti := todo\<lparr>parent_id := None\<rparr>], True)
        | Some parent \<Rightarrow>
            (let parentIndex = indexById next (todo_id parent);
                 todoIndex = indexById next (todo_id todo)
             in if parentIndex \<noteq> - 1 \<and> parentIndex < todoIndex then Some (next, changed)
                else climb_parents (next[ti := todo\<lparr>parent_id := parent_id parent\<rparr>]) ti True)))"

fun normalize_loop ::
  "string list \<Rightarrow> TodoRecord list \<Rightarrow> (string \<times> string option) list \<Rightarrow>
   (TodoRecord list \<times> (string \<times> string option) list) option" where
  "normalize_loop [] next parentUpdates = Some (next, parentUpdates)"
| "normalize_loop (movedId # rest) next parentUpdates =
     (case byId next movedId of
        None \<Rightarrow> normalize_loop rest next parentUpdates
      | Some todo \<Rightarrow>
          (case climb_parents next (nat (indexById next movedId)) False of
             None \<Rightarrow> None
           | Some (next', changed) \<Rightarrow>
               normalize_loop rest next'
                 (if changed
                  then parentUpdates @ [(movedId, parent_id (next' ! nat (indexById next movedId)))]
                  else parentUpdates)))"

definition normalizeMovedParentsAfterReorder ::
  "TodoRecord list \<Rightarrow> string list \<Rightarrow> (TodoRecord list \<times> (string \<times> string option) list) option" where
  "normalizeMovedParentsAfterReorder items movedIds = normalize_loop movedIds items []"

text \<open>
  \<^verbatim>\<open>depthByTodoId\<close>.  \<open>depth_walk\<close> is the \<^verbatim>\<open>while\<close> loop of \<^verbatim>\<open>depthFor\<close>: every round
  follows one parent link and adds one to \<^verbatim>\<open>depth\<close>, which starts at \<open>0\<close>, so its
  result is the number of links followed.
\<close>

lemma byId_in_ids: "byId items k = Some t \<Longrightarrow> k \<in> set (map todo_id items)"
  unfolding byId_def by (drule map_of_SomeD) auto

function depth_walk :: "TodoRecord list \<Rightarrow> TodoRecord option \<Rightarrow> string list \<Rightarrow> nat \<Rightarrow> nat" where
  "depth_walk items current seen depth =
     (case current of
        None \<Rightarrow> depth
      | Some c \<Rightarrow>
          if truthy (parent_id c) \<and> byId items (the (parent_id c)) \<noteq> None then
            (if the (parent_id c) \<in> set seen then depth
             else depth_walk items (byId items (the (parent_id c))) (the (parent_id c) # seen) (depth + 1))
          else depth)"
  by pat_completeness auto

termination depth_walk
proof (relation "measure (\<lambda>(items, current, seen, depth). card (set (map todo_id items) - set seen))")
  show "wf (measure (\<lambda>(items, current, seen, depth). card (set (map todo_id items) - set seen)))"
    by simp
next
  fix items :: "TodoRecord list" and current :: "TodoRecord option" and seen :: "string list"
    and depth :: nat and c :: TodoRecord
  assume c: "truthy (parent_id c) \<and> byId items (the (parent_id c)) \<noteq> None"
    and fresh: "the (parent_id c) \<notin> set seen"
  from c obtain p where "byId items (the (parent_id c)) = Some p" by auto
  then have "the (parent_id c) \<in> set (map todo_id items)" by (rule byId_in_ids)
  with fresh have "card (set (map todo_id items) - set (the (parent_id c) # seen))
      < card (set (map todo_id items) - set seen)"
    by (intro psubset_card_mono) auto
  then show "((items, byId items (the (parent_id c)), the (parent_id c) # seen, depth + 1),
              (items, current, seen, depth))
      \<in> measure (\<lambda>(items, current, seen, depth). card (set (map todo_id items) - set seen))"
    by simp
qed

definition depthFor :: "TodoRecord list \<Rightarrow> (string \<rightharpoonup> nat) \<Rightarrow> string \<Rightarrow> nat \<times> (string \<rightharpoonup> nat)" where
  "depthFor items memo todoId =
     (case memo todoId of
        Some d \<Rightarrow> (d, memo)
      | None \<Rightarrow>
          (let walked = depth_walk items (byId items todoId) [] 0;
               depth = (if walked = 0 \<and>
                           (case byId items todoId of None \<Rightarrow> False | Some t \<Rightarrow> truthy (parent_id t))
                        then 1 else walked);
               boundedDepth = min depth 8
           in (boundedDepth, memo(todoId \<mapsto> boundedDepth))))"

definition depthByTodoId :: "TodoRecord list \<Rightarrow> (string \<rightharpoonup> nat)" where
  "depthByTodoId items =
     fst (fold (\<lambda>todo (result, memo).
                  (case depthFor items memo (todo_id todo) of
                     (d, memo') \<Rightarrow> (result(todo_id todo \<mapsto> d), memo')))
               items (Map.empty, Map.empty))"

text \<open>The handlers of this version.  \<^verbatim>\<open>persistCurrentOrder\<close> catches what the client throws.\<close>

definition persistCurrentOrder :: "api \<Rightarrow> ui \<Rightarrow> ui \<times> api_call list" where
  "persistCurrentOrder a st =
     (if \<not> positioningAvailable st then (st, [])
      else (let orderedIds = map todo_id (latestTodosRef st) in
            case api_updateTodoPositions a orderedIds of
              Fulfilled u \<Rightarrow> (st\<lparr>isSavingOrder := False\<rparr>, [CallUpdateTodoPositions orderedIds])
            | Rejected m \<Rightarrow>
                (st\<lparr>error := Some m, isSavingOrder := False\<rparr>,
                 [CallUpdateTodoPositions orderedIds])))"

definition canReorderNested :: "bool \<Rightarrow> ui \<Rightarrow> bool" where
  "canReorderNested env st =
     (env \<and> showCompleted st \<and> \<not> truthy (editingId st) \<and> \<not> truthy (busyId st) \<and>
      positioningAvailable st)"

definition selectedForAction :: "ui \<Rightarrow> string \<Rightarrow> string list" where
  "selectedForAction st activeId =
     (if selectedTodoIds st \<noteq> [] \<and> activeId \<in> set (selectedTodoIds st) then selectedTodoIds st
      else [])"

definition parent_update_calls :: "(string \<times> string option) list \<Rightarrow> api_call list" where
  "parent_update_calls updates = map (\<lambda>(ident, p). CallUpdateTodo ident (parent_patch p)) updates"

definition update_parents :: "api \<Rightarrow> (string \<times> string option) list \<Rightarrow> TodoRecord list outcome" where
  "update_parents a updates =
     promise_all (map (\<lambda>(ident, p). api_updateTodo a ident (parent_patch p)) updates)"

text \<open>
  \<^verbatim>\<open>moveFocusedSelectionByOffset\<close>; \<open>None\<close> when the repair of the parents does not return.
\<close>

definition moveFocusedSelectionByOffset ::
  "bool \<Rightarrow> api \<Rightarrow> ui \<Rightarrow> string \<Rightarrow> int \<Rightarrow> (ui \<times> api_call list) option" where
  "moveFocusedSelectionByOffset env a st activeId offset =
     (if \<not> canReorderNested env st then Some (st, [])
      else (let selected = selectedForAction st activeId;
                movedIds = (if selected \<noteq> [] then selected else [activeId]);
                snapshot = latestTodosRef st;
                moved = compactAndMoveSelection snapshot selected activeId offset
            in if \<not> snd moved then Some (st, [])
               else (case normalizeMovedParentsAfterReorder (fst moved) movedIds of
                   None \<Rightarrow> None
                 | Some (next, parentUpdates) \<Rightarrow>
                     (let st1 = st\<lparr>latestTodosRef := next, todos := next, error := None\<rparr>;
                          persisted = persistCurrentOrder a st1;
                          calls = snd persisted @ parent_update_calls parentUpdates
                      in case update_parents a parentUpdates of
                           Fulfilled us \<Rightarrow> Some (fst persisted, calls)
                         | Rejected m \<Rightarrow>
                             Some ((fst persisted)\<lparr>latestTodosRef := snapshot, todos := snapshot,
                                     error := Some m\<rparr>, calls)))))"

text \<open>\<^verbatim>\<open>next.some((todo, index) => todo.id !== previous?.id || todo.parent_id !== previous?.parent_id)\<close>.\<close>

definition rows_differ :: "TodoRecord list \<Rightarrow> TodoRecord list \<Rightarrow> bool" where
  "rows_differ next snapshot =
     list_ex (\<lambda>b. b)
       (map_indexed (\<lambda>todo index. length snapshot \<le> index \<or>
                       todo_id todo \<noteq> todo_id (snapshot ! index) \<or>
                       parent_id todo \<noteq> parent_id (snapshot ! index)) next)"

definition nestFocusedSelectionIntoPrevious :: "bool \<Rightarrow> api \<Rightarrow> ui \<Rightarrow> string \<Rightarrow> ui \<times> api_call list" where
  "nestFocusedSelectionIntoPrevious env a st activeId =
     (if \<not> env \<or> truthy (busyId st) \<or> truthy (editingId st) then (st, [])
      else (let snapshot = latestTodosRef st in
        case compactSelectionAtAnchor snapshot (selectedForAction st activeId) activeId of
          None \<Rightarrow> (st, [])
        | Some (compacted, block, anchorIndex) \<Rightarrow>
            if anchorIndex = 0 then (st, [])
            else if length compacted \<le> nat (anchorIndex - 1) then (st, [])
            else (let parent = compacted ! nat (anchorIndex - 1);
                      blockIds = map todo_id block;
                      parentLevelId = parent_id parent;
                      shouldNestIntoParent =
                        (truthy parentLevelId \<and> list_all (\<lambda>todo. parent_id todo = parentLevelId) block);
                      nextParentIdForBlock =
                        (if truthy parentLevelId
                         then (if shouldNestIntoParent then Some (todo_id parent) else parentLevelId)
                         else Some (todo_id parent));
                      next = normalizePositions
                               (map (\<lambda>todo. if todo_id todo \<notin> set blockIds then todo
                                            else todo\<lparr>parent_id := nextParentIdForBlock\<rparr>) compacted)
                  in if \<not> rows_differ next snapshot then (st, [])
                     else (let st1 = render (st\<lparr>todos := next, error := None\<rparr>);
                               updates = map (\<lambda>todoId.
                                   (todoId, (case find (\<lambda>todo. todo_id todo = todoId) next of
                                               None \<Rightarrow> None | Some updatedTodo \<Rightarrow> parent_id updatedTodo)))
                                 blockIds
                           in case update_parents a updates of
                                Fulfilled us \<Rightarrow>
                                  (let persisted = persistCurrentOrder a st1
                                   in (fst persisted, parent_update_calls updates @ snd persisted))
                              | Rejected m \<Rightarrow>
                                  (render (st1\<lparr>todos := snapshot, error := Some m\<rparr>),
                                   parent_update_calls updates)))))"

definition unnest_update :: "TodoRecord list \<Rightarrow> string \<Rightarrow> (string \<times> string option) option" where
  "unnest_update snapshot todoId =
     (case byId snapshot todoId of
        None \<Rightarrow> None
      | Some todo \<Rightarrow>
          if \<not> truthy (parent_id todo) then None
          else (let nextParentId = (case byId snapshot (the (parent_id todo)) of
                                      None \<Rightarrow> None | Some parent \<Rightarrow> parent_id parent)
                in if nextParentId = parent_id todo then None else Some (todoId, nextParentId)))"

definition unnestFocusedSelectionOneLevel :: "bool \<Rightarrow> api \<Rightarrow> ui \<Rightarrow> string \<Rightarrow> ui \<times> api_call list" where
  "unnestFocusedSelectionOneLevel env a st activeId =
     (if \<not> env \<or> truthy (busyId st) \<or> truthy (editingId st) then (st, [])
      else (let snapshot = latestTodosRef st;
                targetIds = (if selectedTodoIds st \<noteq> [] \<and> activeId \<in> set (selectedTodoIds st)
                             then selectedTodoIds st else [activeId]);
                updates = List.map_filter (unnest_update snapshot) targetIds
            in if updates = [] then (st, [])
               else (let updateMap = map_of (rev updates);
                         next = map (\<lambda>todo. case updateMap (todo_id todo) of
                                       Some p \<Rightarrow> todo\<lparr>parent_id := p\<rparr> | None \<Rightarrow> todo) snapshot;
                         st1 = render (st\<lparr>todos := next, error := None\<rparr>)
                     in case update_parents a updates of
                          Fulfilled us \<Rightarrow> (st1, parent_update_calls updates)
                        | Rejected m \<Rightarrow>
                            (render (st1\<lparr>todos := snapshot, error := Some m\<rparr>),
                             parent_update_calls updates))))"

text \<open>
  The drag gesture of this version: \<^verbatim>\<open>startDrag\<close>, then the pointer moves, each with its
  \<^verbatim>\<open>clientX\<close> and the id of the card under the pointer, then the pointer goes up.  The
  closure variables of \<^verbatim>\<open>startDrag\<close> are \<^verbatim>\<open>moved\<close> and \<^verbatim>\<open>latestClientX\<close>.  The updater
  that \<^verbatim>\<open>handlePointerMove\<close> passes to \<^verbatim>\<open>setTodos\<close> has the body of \<open>dragOver\<close>.
\<close>

definition CARD_HORIZONTAL_NEST_PX :: int where
  "CARD_HORIZONTAL_NEST_PX = 36"

definition horizontal_intent :: "int \<Rightarrow> drag_intent option" where
  "horizontal_intent deltaX =
     (if CARD_HORIZONTAL_NEST_PX \<le> deltaX then Some IntentNest
      else if deltaX \<le> - CARD_HORIZONTAL_NEST_PX then Some IntentUnnest
      else None)"

definition startDrag_nested :: "bool \<Rightarrow> ui \<Rightarrow> string \<Rightarrow> ui option" where
  "startDrag_nested env st activeId =
     (if \<not> canReorderNested env st then None
      else (let previewIds = (if selectedTodoIds st \<noteq> [] \<and> activeId \<in> set (selectedTodoIds st)
                              then selectedTodoIds st else [activeId])
            in Some (st\<lparr>error := None, draggingIds := previewIds, dragHorizontalIntent := None\<rparr>)))"

definition handlePointerMove_nested ::
  "string \<Rightarrow> int \<Rightarrow> ui \<times> bool \<times> int \<Rightarrow> int \<times> string option \<Rightarrow> ui \<times> bool \<times> int" where
  "handlePointerMove_nested activeId dragStartX sm moveEvent =
     (case sm of (st, moved, latestClientX) \<Rightarrow>
      case moveEvent of (clientX, overId) \<Rightarrow>
        (let st1 = st\<lparr>dragHorizontalIntent := horizontal_intent (clientX - dragStartX)\<rparr> in
         if \<not> truthy overId \<or> overId = Some activeId then (st1, moved, clientX)
         else (let r = dragOver (todos st1) activeId (the overId)
               in (render (st1\<lparr>todos := fst r\<rparr>), moved \<or> snd r, clientX))))"

definition handlePointerUp_nested ::
  "bool \<Rightarrow> api \<Rightarrow> string \<Rightarrow> int \<Rightarrow> ui \<times> bool \<times> int \<Rightarrow> ui \<times> api_call list" where
  "handlePointerUp_nested env a activeId dragStartX sm =
     (case sm of (st, moved, latestClientX) \<Rightarrow>
        (let st1 = st\<lparr>draggingIds := [], dragHorizontalIntent := None\<rparr>;
             deltaX = latestClientX - dragStartX;
             shouldNest = (CARD_HORIZONTAL_NEST_PX \<le> deltaX);
             shouldUnnest = (deltaX \<le> - CARD_HORIZONTAL_NEST_PX);
             persisted = (if moved \<and> positioningAvailable st1 then persistCurrentOrder a st1
                          else (st1, []))
         in if shouldNest then
              (let nested = nestFocusedSelectionIntoPrevious env a (fst persisted) activeId
               in (fst nested, snd persisted @ snd nested))
            else if shouldUnnest then
              (let unnested = unnestFocusedSelectionOneLevel env a (fst persisted) activeId
               in (fst unnested, snd persisted @ snd unnested))
            else persisted))"

definition drag_gesture_nested ::
  "bool \<Rightarrow> api \<Rightarrow> ui \<Rightarrow> string \<Rightarrow> int \<Rightarrow> (int \<times> string option) list \<Rightarrow> ui \<times> api_call list" where
  "drag_gesture_nested env a st activeId dragStartX moveEvents =
     (case startDrag_nested env st activeId of
        None \<Rightarrow> (st, [])
      | Some st1 \<Rightarrow>
          handlePointerUp_nested env a activeId dragStartX
            (foldl (handlePointerMove_nested activeId dragStartX) (st1, False, dragStartX) moveEvents))"

text \<open>\<^verbatim>\<open>Array.from(new Set(xs))\<close>: the first occurrence of every element, in order.\<close>

definition unique_ids :: "string list \<Rightarrow> string list" where
  "unique_ids xs = rev (remdups (rev xs))"

definition delete_all :: "api \<Rightarrow> string list \<Rightarrow> unit list outcome" where
  "delete_all a targetIds = promise_all (map (api_deleteTodo a) targetIds)"

definition deleteFocusedSelection :: "bool \<Rightarrow> api \<Rightarrow> ui \<Rightarrow> string \<Rightarrow> ui \<times> api_call list" where
  "deleteFocusedSelection env a st activeId =
     (if \<not> env \<or> truthy (busyId st) \<or> truthy (editingId st) then (st, [])
      else (let snapshot = latestTodosRef st;
                targetIds = unique_ids (if selectedTodoIds st \<noteq> [] \<and> activeId \<in> set (selectedTodoIds st)
                                        then selectedTodoIds st else [activeId])
            in if targetIds = [] then (st, [])
               else (let nextTodos = normalizePositions
                                       (filter (\<lambda>todo. todo_id todo \<notin> set targetIds) snapshot);
                         st1 = st\<lparr>latestTodosRef := nextTodos, todos := nextTodos,
                                  selectedTodoIds := [], selectionAnchorId := None, error := None\<rparr>
                     in case delete_all a targetIds of
                          Fulfilled us \<Rightarrow>
                            (let persisted = persistCurrentOrder a st1
                             in ((fst persisted)\<lparr>busyId := None\<rparr>,
                                 map CallDeleteTodo targetIds @ snd persisted))
                        | Rejected m \<Rightarrow>
                            (st1\<lparr>latestTodosRef := snapshot, todos := snapshot, error := Some m,
                                 busyId := None\<rparr>,
                             map CallDeleteTodo targetIds))))"

text \<open>\<^verbatim>\<open>saveEdit\<close> of this version: an empty title deletes the task.\<close>

definition saveEditOrDelete :: "bool \<Rightarrow> api \<Rightarrow> ui \<Rightarrow> ui \<times> api_call list" where
  "saveEditOrDelete env a st =
     (if \<not> env \<or> \<not> truthy (editingId st) \<or> truthy (busyId st) then (st, [])
      else (let targetId = the (editingId st); ttl = trim (editingTitle st) in
        if ttl = [] then
          (case api_deleteTodo a targetId of
             Fulfilled u \<Rightarrow>
               (render (st\<lparr>error := None,
                    todos := normalizePositions (filter (\<lambda>item. todo_id item \<noteq> targetId) (todos st)),
                    editingId := None, editingTitle := [], busyId := None\<rparr>),
                [CallDeleteTodo targetId])
           | Rejected m \<Rightarrow> (st\<lparr>error := Some m, busyId := None\<rparr>, [CallDeleteTodo targetId]))
        else
          (case api_updateTodo a targetId (title_patch ttl) of
             Fulfilled updated \<Rightarrow>
               (render (st\<lparr>error := None, todos := replace_updated updated (todos st),
                    editingId := None, editingTitle := [], busyId := None\<rparr>),
                [CallUpdateTodo targetId (title_patch ttl)])
           | Rejected m \<Rightarrow>
               (st\<lparr>error := Some m, busyId := None\<rparr>, [CallUpdateTodo targetId (title_patch ttl)]))))"

section \<open>The nested list with keyboard gestures (another components/todo-app.tsx)\<close>

definition NEW_TASK_ACTIVE_ID :: string where
  "NEW_TASK_ACTIVE_ID = ''__new_task__''"

text \<open>
  \<^verbatim>\<open>buildDepthMap\<close>.  \<^verbatim>\<open>getDepth\<close> gives the depth and the cache it leaves; the third
  component is not in the source: it counts the recursive calls, one for every parent
  link followed.
\<close>

function getDepth ::
  "TodoRecord list \<Rightarrow> (string \<rightharpoonup> nat) \<Rightarrow> string \<Rightarrow> string list \<Rightarrow> nat \<times> (string \<rightharpoonup> nat) \<times> nat" where
  "getDepth items cache ident seen =
     (case cache ident of
        Some d \<Rightarrow> (d, cache, 0)
      | None \<Rightarrow>
          (case byId items ident of
             None \<Rightarrow> (0, cache(ident \<mapsto> 0), 0)
           | Some item \<Rightarrow>
               if \<not> truthy (parent_id item) then (0, cache(ident \<mapsto> 0), 0)
               else if ident \<in> set seen \<or> byId items (the (parent_id item)) = None
                    then (0, cache(ident \<mapsto> 0), 0)
               else (case getDepth items cache (the (parent_id item)) (ident # seen) of
                       (d, cache', walks) \<Rightarrow> (d + 1, cache'(ident \<mapsto> d + 1), walks + 1))))"
  by pat_completeness auto

termination getDepth
proof (relation "measure (\<lambda>(items, cache, ident, seen). card (set (map todo_id items) - set seen))")
  show "wf (measure (\<lambda>(items, cache, ident, seen). card (set (map todo_id items) - set seen)))"
    by simp
next
  fix items :: "TodoRecord list" and cache :: "string \<rightharpoonup> nat" and ident :: string
    and seen :: "string list" and item :: TodoRecord
  assume found: "byId items ident = Some item"
    and fresh: "\<not> (ident \<in> set seen \<or> byId items (the (parent_id item)) = None)"
  from found have "ident \<in> set (map todo_id items)" by (rule byId_in_ids)
  with fresh have "card (set (map todo_id items) - set (ident # seen))
      < card (set (map todo_id items) - set seen)"
    by (intro psubset_card_mono) auto
  then show "((items, cache, the (parent_id item), ident # seen), (items, cache, ident, seen))
      \<in> measure (\<lambda>(items, cache, ident, seen). card (set (map todo_id items) - set seen))"
    by simp
qed

definition buildDepthMap :: "TodoRecord list \<Rightarrow> (string \<rightharpoonup> nat)" where
  "buildDepthMap items =
     fst (fold (\<lambda>item (depths, cache).
                  (case getDepth items cache (todo_id item) [] of
                     (d, cache', walks) \<Rightarrow> (depths(todo_id item \<mapsto> d), cache')))
               items (Map.empty, Map.empty))"

text \<open>
  \<^verbatim>\<open>reorderBySiblingMove\<close>.  \<open>parentKey\<close> is the local function of that name;
  \<open>childrenOf\<close> is \<^verbatim>\<open>childrenByParent.get(key) ?? []\<close> after the group of the active
  item has been replaced by \<open>reorderedSiblings\<close>.  \<open>visit\<close> is the local function
  \<^verbatim>\<open>visit\<close>, with its \<^verbatim>\<open>forEach\<close> written as a recursion on the children that are left:
  \<^verbatim>\<open>visit(key)\<close> is \<open>visit\<close> on \<open>childrenOf key\<close>.
\<close>

definition parentKey :: "TodoRecord list \<Rightarrow> TodoRecord \<Rightarrow> string option" where
  "parentKey items item =
     (if truthy (parent_id item) \<and> byId items (the (parent_id item)) \<noteq> None then parent_id item
      else None)"

definition childrenOf ::
  "TodoRecord list \<Rightarrow> string option \<Rightarrow> TodoRecord list \<Rightarrow> string option \<Rightarrow> TodoRecord list" where
  "childrenOf items activeParentKey reorderedSiblings key =
     (if key = activeParentKey then reorderedSiblings
      else filter (\<lambda>item. parentKey items item = key) items)"

definition unvisited ::
  "TodoRecord list \<Rightarrow> TodoRecord list \<Rightarrow> TodoRecord list \<Rightarrow> TodoRecord list \<Rightarrow> nat" where
  "unvisited items rs children ordered =
     card (set (map todo_id (items @ rs @ children)) - set (map todo_id ordered))"

function visit ::
  "TodoRecord list \<Rightarrow> string option \<Rightarrow> TodoRecord list \<Rightarrow> TodoRecord list \<Rightarrow> TodoRecord list \<Rightarrow>
   TodoRecord list" where
  "visit items ak rs [] ordered = ordered"
| "visit items ak rs (child # rest) ordered =
     (if todo_id child \<in> set (map todo_id ordered) then visit items ak rs rest ordered
      else visit items ak rs rest
             (visit items ak rs (childrenOf items ak rs (Some (todo_id child))) (ordered @ [child])))"
  by pat_completeness auto

lemma visit_grows:
  "visit_dom (items, ak, rs, children, ordered) \<Longrightarrow>
   set (map todo_id ordered) \<subseteq> set (map todo_id (visit items ak rs children ordered))"
proof (induction items ak rs children ordered rule: visit.pinduct)
  case (1 items ak rs ordered)
  then show ?case by (simp add: visit.psimps)
next
  case (2 items ak rs child rest ordered)
  show ?case
  proof (cases "todo_id child \<in> set (map todo_id ordered)")
    case True
    with 2 show ?thesis by (simp add: visit.psimps)
  next
    case False
    with 2 show ?thesis by (simp add: visit.psimps) blast
  qed
qed

lemma childrenOf_ids:
  "set (map todo_id (childrenOf items ak rs key)) \<subseteq> set (map todo_id (items @ rs))"
  by (auto simp: childrenOf_def)

termination visit
proof (relation "measures [\<lambda>(items, ak, rs, children, ordered). unvisited items rs children ordered,
                           \<lambda>(items, ak, rs, children, ordered). length children]")
  show "wf (measures [\<lambda>(items, ak, rs, children, ordered). unvisited items rs children ordered,
                      \<lambda>(items, ak, rs, children, ordered). length children])"
    by simp
next
  fix items :: "TodoRecord list" and ak :: "string option" and rs :: "TodoRecord list"
    and child :: TodoRecord and rest :: "TodoRecord list" and ordered :: "TodoRecord list"
  assume "todo_id child \<in> set (map todo_id ordered)"
  have "unvisited items rs rest ordered \<le> unvisited items rs (child # rest) ordered"
    unfolding unvisited_def by (intro card_mono) auto
  then show "((items, ak, rs, rest, ordered), (items, ak, rs, child # rest, ordered))
     \<in> measures [\<lambda>(items, ak, rs, children, ordered). unvisited items rs children ordered,
                  \<lambda>(items, ak, rs, children, ordered). length children]"
    by auto
next
  fix items :: "TodoRecord list" and ak :: "string option" and rs :: "TodoRecord list"
    and child :: TodoRecord and rest :: "TodoRecord list" and ordered :: "TodoRecord list"
  assume fresh: "todo_id child \<notin> set (map todo_id ordered)"
  have "unvisited items rs (childrenOf items ak rs (Some (todo_id child))) (ordered @ [child])
        < unvisited items rs (child # rest) ordered"
    unfolding unvisited_def using fresh childrenOf_ids[of items ak rs "Some (todo_id child)"]
    by (intro psubset_card_mono) auto
  then show "((items, ak, rs, childrenOf items ak rs (Some (todo_id child)), ordered @ [child]),
              (items, ak, rs, child # rest, ordered))
     \<in> measures [\<lambda>(items, ak, rs, children, ordered). unvisited items rs children ordered,
                  \<lambda>(items, ak, rs, children, ordered). length children]"
    by auto
next
  fix items :: "TodoRecord list" and ak :: "string option" and rs :: "TodoRecord list"
    and child :: TodoRecord and rest :: "TodoRecord list" and ordered :: "TodoRecord list"
  assume fresh: "todo_id child \<notin> set (map todo_id ordered)"
    and dom: "visit_dom (items, ak, rs, childrenOf items ak rs (Some (todo_id child)), ordered @ [child])"
  from visit_grows[OF dom]
  have "unvisited items rs rest
          (visit items ak rs (childrenOf items ak rs (Some (todo_id child))) (ordered @ [child]))
        \<le> unvisited items rs (child # rest) ordered"
    unfolding unvisited_def by (intro card_mono) auto
  then show "((items, ak, rs, rest,
               visit items ak rs (childrenOf items ak rs (Some (todo_id child))) (ordered @ [child])),
              (items, ak, rs, child # rest, ordered))
     \<in> measures [\<lambda>(items, ak, rs, children, ordered). unvisited items rs children ordered,
                  \<lambda>(items, ak, rs, children, ordered). length children]"
    by auto
qed

text \<open>
  The two \<^verbatim>\<open>splice\<close> calls on the copy of \<^verbatim>\<open>siblings\<close> are those of \<^verbatim>\<open>arrayMove\<close>, with
  both indices in range.
\<close>

definition reorderBySiblingMove :: "TodoRecord list \<Rightarrow> string \<Rightarrow> int \<Rightarrow> TodoRecord list option" where
  "reorderBySiblingMove items activeId direction =
     (case byId items activeId of
        None \<Rightarrow> None
      | Some active \<Rightarrow>
          (let activeParentKey = parentKey items active;
               siblings = filter (\<lambda>item. parentKey items item = activeParentKey) items;
               currentIndex = findIndex (\<lambda>item. todo_id item = activeId) siblings
           in if currentIndex = - 1 then None
              else (let nextIndex = currentIndex + direction in
                if nextIndex < 0 \<or> int (length siblings) \<le> nextIndex then None
                else (let reorderedSiblings = arrayMove siblings currentIndex nextIndex;
                          ordered = visit items activeParentKey reorderedSiblings
                                      (childrenOf items activeParentKey reorderedSiblings None) [];
                          completed =
                            (if length ordered \<noteq> length items
                             then ordered @ filter (\<lambda>item. todo_id item \<notin> set (map todo_id ordered)) items
                             else ordered)
                      in Some (normalizePositions completed)))))"

definition handleMoveActiveTodo :: "bool \<Rightarrow> api \<Rightarrow> ui \<Rightarrow> int \<Rightarrow> ui \<times> api_call list" where
  "handleMoveActiveTodo env a st direction =
     (if \<not> env \<or> \<not> truthy (activeTodoId st) \<or> activeTodoId st = Some NEW_TASK_ACTIVE_ID \<or>
         truthy (busyId st) \<or> truthy (editingId st) then (st, [])
      else (let previousTodos = todos st in
        case reorderBySiblingMove previousTodos (the (activeTodoId st)) direction of
          None \<Rightarrow> (st, [])
        | Some reordered \<Rightarrow>
            (case api_updateTodoPositions a (map todo_id reordered) of
               Fulfilled u \<Rightarrow>
                 (st\<lparr>error := None, todos := reordered, busyId := None\<rparr>,
                  [CallUpdateTodoPositions (map todo_id reordered)])
             | Rejected m \<Rightarrow>
                 (st\<lparr>error := Some m, todos := previousTodos, busyId := None\<rparr>,
                  [CallUpdateTodoPositions (map todo_id reordered)]))))"

definition handleDeleteSelection :: "bool \<Rightarrow> api \<Rightarrow> ui \<Rightarrow> ui \<times> api_call list" where
  "handleDeleteSelection env a st =
     (let targetIds =
            (if selectedTodoIds st \<noteq> [] then selectedTodoIds st
             else if truthy (activeTodoId st) \<and> activeTodoId st \<noteq> Some NEW_TASK_ACTIVE_ID
                  then [the (activeTodoId st)] else [])
      in if \<not> env \<or> targetIds = [] \<or> truthy (busyId st) then (st, [])
         else (let previousTodos = todos st;
                   nextTodos = normalizePositions
                                 (filter (\<lambda>item. todo_id item \<notin> set targetIds) previousTodos);
                   deletes = map CallDeleteTodo targetIds;
                   failed = (\<lambda>m. st\<lparr>todos := previousTodos, error := Some m, busyId := None\<rparr>)
               in case delete_all a targetIds of
                    Rejected m \<Rightarrow> (failed m, deletes)
                  | Fulfilled us \<Rightarrow>
                      (case api_updateTodoPositions a (map todo_id nextTodos) of
                         Rejected m \<Rightarrow>
                           (failed m, deletes @ [CallUpdateTodoPositions (map todo_id nextTodos)])
                       | Fulfilled u \<Rightarrow>
                           (let st1 = st\<lparr>error := None, todos := nextTodos\<rparr>;
                                st2 = (if truthy (editingId st) \<and> the (editingId st) \<in> set targetIds
                                       then st1\<lparr>editingId := None, editingTitle := []\<rparr> else st1)
                            in (st2\<lparr>activeTodoId := None, selectedTodoIds := [],
                                    selectionAnchorId := None, busyId := None\<rparr>,
                                deletes @ [CallUpdateTodoPositions (map todo_id nextTodos)])))))"

text \<open>\<^verbatim>\<open>saveEdit\<close> of this version: an empty title returns without a message.\<close>

definition saveEditSilent :: "bool \<Rightarrow> api \<Rightarrow> ui \<Rightarrow> ui \<times> api_call list" where
  "saveEditSilent env a st =
     (if \<not> env \<or> \<not> truthy (editingId st) \<or> truthy (busyId st) then (st, [])
      else (let ttl = trim (editingTitle st) in
        if ttl = [] then (st, [])
        else case api_updateTodo a (the (editingId st)) (title_patch ttl) of
          Fulfilled updated \<Rightarrow>
            (st\<lparr>error := None, todos := replace_updated updated (todos st),
                editingId := None, editingTitle := [], busyId := None\<rparr>,
             [CallUpdateTodo (the (editingId st)) (title_patch ttl)])
        | Rejected m \<Rightarrow>
            (st\<lparr>error := Some m, busyId := None\<rparr>,
             [CallUpdateTodo (the (editingId st)) (title_patch ttl)])))"

section \<open>Example data\<close>

definition task :: "string \<Rightarrow> string option \<Rightarrow> TodoRecord" where
  "task ident parent =
     \<lparr>todo_id = ident, title = utf16_of ident, is_completed = False, position = 0, parent_id = parent,
      created_at = [], updated_at = []\<rparr>"

definition abc :: "TodoRecord list" where
  "abc = [task ''a'' None, task ''b'' None, task ''c'' None]"

definition idle_ui :: "TodoRecord list \<Rightarrow> ui" where
  "idle_ui items =
     \<lparr>todos = items, latestTodosRef = items, busyId = None, error = None, editingId = None,
      editingTitle = [], todoFilter = FilterAll, showCompleted = True, draggingId = None,
      draggingIds = [], dragHorizontalIntent = None,
      positioningAvailable = True, isSavingOrder = False, activeTodoId = None,
      selectedTodoIds = [], selectionAnchorId = None\<rparr>"

definition ok_response :: response where
  "ok_response = \<lparr>ok = True, status_line = ''200 OK'', error_json = None, list_json = [],
     rows_json = []\<rparr>"

definition failing_response :: "string \<Rightarrow> response" where
  "failing_response m = \<lparr>ok = False, status_line = ''400 Bad Request'',
     error_json = Some \<lparr>message = Some m, details = None, hint = None\<rparr>, list_json = [],
     rows_json = []\<rparr>"

text \<open>A store that answers every request with success and no rows.\<close>

definition ok_fetch :: fetch where
  "ok_fetch req = Fulfilled ok_response"

definition ok_api :: api where
  "ok_api = rest_api True ok_fetch [] initial_client"

text \<open>
  A task that is being edited, with a blank title in the field: a space and a no-break
  space.
\<close>

definition blank_edit_ui :: ui where
  "blank_edit_ui = (idle_ui abc)\<lparr>editingId := Some ''b'', editingTitle := [0x20, 0xA0]\<rparr>"

text \<open>
  The list \<open>A, B, C, D\<close> with \<open>D\<close> a child of \<open>C\<close>, and the tasks \<open>B\<close> and \<open>C\<close> selected.
\<close>

definition abcd :: "TodoRecord list" where
  "abcd = [task ''A'' None, task ''B'' None, task ''C'' None, task ''D'' (Some ''C'')]"

definition bc_selected_ui :: ui where
  "bc_selected_ui = (idle_ui abcd)\<lparr>selectedTodoIds := [''B'', ''C''], activeTodoId := Some ''C'',
     selectionAnchorId := Some ''B''\<rparr>"

text \<open>A store that rejects every write to the task \<open>bad\<close> with the message \<open>m\<close>.\<close>

definition failing_fetch :: "string \<Rightarrow> string \<Rightarrow> fetch" where
  "failing_fetch bad m req =
     (case req of
        PatchTodo ident select prefer updates \<Rightarrow>
          (if ident = bad then Fulfilled (failing_response m) else Fulfilled ok_response)
      | _ \<Rightarrow> Fulfilled ok_response)"

definition failing_api :: "string \<Rightarrow> string \<Rightarrow> api" where
  "failing_api bad m = rest_api True (failing_fetch bad m) [] initial_client"

text \<open>
  The list \<open>a, b, c\<close>; \<open>b\<close> is dragged over \<open>a\<close> and dropped, and the store rejects the
  new position of \<open>a\<close>.
\<close>

definition failed_drag :: "ui \<times> api_call list" where
  "failed_drag = drag_gesture True (failing_api ''a'' ''boom'') (idle_ui abc) ''b'' [Some ''a'']"

text \<open>The list \<open>a, b, c\<close> with \<open>b\<close> focused, and the list after \<open>b\<close> has moved up.\<close>

definition b_active_ui :: ui where
  "b_active_ui = (idle_ui abc)\<lparr>activeTodoId := Some ''b''\<rparr>"

definition bac :: "TodoRecord list" where
  "bac = [(task ''b'' None)\<lparr>position := 0\<rparr>, (task ''a'' None)\<lparr>position := 1\<rparr>,
          (task ''c'' None)\<lparr>position := 2\<rparr>]"

definition unsupported_client :: client where
  "unsupported_client = \<lparr>supportsPositionColumn = Some False, supportsParentColumn = Some False\<rparr>"

text \<open>
  A store without the \<^verbatim>\<open>position\<close> column: it answers every request that mentions the
  column with the error of the database, and a list request without it with two rows.
\<close>

definition two_rows :: "list_row list" where
  "two_rows =
     [\<lparr>lr_id = ''x'', lr_title = utf16_of ''first'', lr_is_completed = False, lr_position = None,
       lr_parent_id = None, lr_created_at = ''2024-01-01'', lr_updated_at = ''2024-01-01''\<rparr>,
      \<lparr>lr_id = ''y'', lr_title = utf16_of ''second'', lr_is_completed = True, lr_position = None,
       lr_parent_id = None, lr_created_at = ''2024-01-02'', lr_updated_at = ''2024-01-02''\<rparr>]"

definition no_position_store :: fetch where
  "no_position_store req =
     (if mentions_position req
      then Fulfilled (failing_response ''column todos.position does not exist'')
      else (case req of
              GetTodos select order \<Rightarrow> Fulfilled (ok_response\<lparr>list_json := two_rows\<rparr>)
            | _ \<Rightarrow> Fulfilled ok_response))"

definition a_session :: "client_call list" where
  "a_session = [CreateCall (utf16_of ''third'') 2, RepositionCall [''y'', ''x''], ListCall, DeleteCall ''x'']"

text \<open>
  The list \<open>A, B, C, D\<close> in which \<open>C\<close> is a child of \<open>A\<close> and the others are top-level,
  with \<open>D\<close> focused.
\<close>

definition a_b_ca_d :: "TodoRecord list" where
  "a_b_ca_d = [task ''A'' None, task ''B'' None, task ''C'' (Some ''A''), task ''D'' None]"

definition a_active_ui :: ui where
  "a_active_ui = (idle_ui abc)\<lparr>activeTodoId := Some ''a''\<rparr>"

text \<open>Two tasks that are each other's parent, a top-level task, and a task whose parent is missing.\<close>

definition cyclic_tasks :: "TodoRecord list" where
  "cyclic_tasks = [task ''a'' (Some ''b''), task ''b'' (Some ''a''), task ''c'' None,
                   task ''d'' (Some ''gone'')]"

text \<open>A store, seen from the handlers, that accepts every call.\<close>

definition accepting_api :: api where
  "accepting_api =
     \<lparr>api_deleteTodo = (\<lambda>ident. Fulfilled ()),
      api_updateTodo = (\<lambda>ident updates. Fulfilled (task ident None)),
      api_updateTodoPositions = (\<lambda>orderedIds. Fulfilled ())\<rparr>"

text \<open>Nest the task \<open>activeId\<close>, then, after the render, unnest it.\<close>

definition nest_then_unnest :: "bool \<Rightarrow> api \<Rightarrow> ui \<Rightarrow> string \<Rightarrow> ui" where
  "nest_then_unnest env a st activeId =
     fst (unnestFocusedSelectionOneLevel env a
            (fst (nestFocusedSelectionIntoPrevious env a st activeId)) activeId)"

text \<open>
  The tree \<open>H > G > P\<close> followed by the top-level task \<open>T\<close>, the tree \<open>H > G\<close>
  followed by \<open>T\<close>, and two top-level tasks.
\<close>

definition chain_then_t :: "TodoRecord list" where
  "chain_then_t = [task ''H'' None, task ''G'' (Some ''H''), task ''P'' (Some ''G''),
                   task ''T'' None]"

definition h_g_t :: "TodoRecord list" where
  "h_g_t = [task ''H'' None, task ''G'' (Some ''H''), task ''T'' None]"

definition p_t :: "TodoRecord list" where
  "p_t = [task ''P'' None, task ''T'' None]"

text \<open>The tree \<open>H > G > P\<close>: \<open>P\<close> is a child of \<open>G\<close>, which is a child of \<open>H\<close>.\<close>

definition h_g_p :: "TodoRecord list" where
  "h_g_p = [task ''H'' None, task ''G'' (Some ''H''), task ''P'' (Some ''G'')]"

text \<open>That tree after \<open>P\<close> has moved up one place, and after its parent has been repaired.\<close>

definition h_p_g :: "TodoRecord list" where
  "h_p_g = [task ''H'' None, (task ''P'' (Some ''G''))\<lparr>position := 1\<rparr>,
            (task ''G'' (Some ''H''))\<lparr>position := 2\<rparr>]"

definition h_ph_g :: "TodoRecord list" where
  "h_ph_g = [task ''H'' None, (task ''P'' (Some ''H''))\<lparr>position := 1\<rparr>,
             (task ''G'' (Some ''H''))\<lparr>position := 2\<rparr>]"

definition depth_rank :: "string \<Rightarrow> nat" where
  "depth_rank k = (if k = ''P'' then 2 else if k = ''G'' then 1 else 0)"

text \<open>
  The task \<open>P\<close> of that tree is dragged over \<open>G\<close> with no horizontal movement, and
  dropped; the store accepts every call.
\<close>

definition dragged_p_over_g :: "ui \<times> api_call list" where
  "dragged_p_over_g =
     drag_gesture_nested True accepting_api (idle_ui h_g_p) ''P'' 0 [(0, Some ''G'')]"

text \<open>The task \<open>A\<close> followed by its child \<open>B\<close>, and the two after \<open>A\<close> has moved down.\<close>

definition a_ba :: "TodoRecord list" where
  "a_ba = [task ''A'' None, task ''B'' (Some ''A'')]"

definition ba_a :: "TodoRecord list" where
  "ba_a = [task ''B'' (Some ''A''), (task ''A'' None)\<lparr>position := 1\<rparr>]"

text \<open>
  A store with neither of the optional columns: it answers a list request that selects
  \<^verbatim>\<open>parent_id\<close> with the error of the database for that column, any other request that
  mentions \<^verbatim>\<open>position\<close> with the error for that one, and a list request without either
  with two rows.
\<close>

definition bare_store :: fetch where
  "bare_store req =
     (if (case req of GetTodos select order \<Rightarrow> str_includes select ''parent_id'' | _ \<Rightarrow> False)
      then Fulfilled (failing_response ''column todos.parent_id does not exist'')
      else if mentions_position req
      then Fulfilled (failing_response ''column todos.position does not exist'')
      else (case req of
              GetTodos select order \<Rightarrow> Fulfilled (ok_response\<lparr>list_json := two_rows\<rparr>)
            | _ \<Rightarrow> Fulfilled ok_response))"

text \<open>
  The list \<open>A, B, C, D, E\<close> in which \<open>C\<close> is a child of \<open>A\<close> and the others are top-level.
\<close>

definition a_b_ca_d_e :: "TodoRecord list" where
  "a_b_ca_d_e = [task ''A'' None, task ''B'' None, task ''C'' (Some ''A''), task ''D'' None,
                 task ''E'' None]"

text \<open>The list \<open>A, A1, A2, B\<close> in which \<open>A1\<close> and \<open>A2\<close> are the children of \<open>A\<close>.\<close>

definition a_a1_a2_b :: "TodoRecord list" where
  "a_a1_a2_b = [task ''A'' None, task ''A1'' (Some ''A''), task ''A2'' (Some ''A''),
                task ''B'' None]"



section \<open>Lists, positions and moves\<close>

lemma length_map_from_position [simp]: "length (map_from k (\<lambda>todo index. todo\<lparr>position := int index\<rparr>) xs) = length xs"
  by (induction xs arbitrary: k) auto

lemma nth_map_from_position: "i < length xs \<Longrightarrow> map_from k (\<lambda>todo index. todo\<lparr>position := int index\<rparr>) xs ! i = (xs ! i)\<lparr>position := int (k + i)\<rparr>"
proof (induction xs arbitrary: k i)
  case Nil then show ?case by simp
next
  case (Cons x xs) then show ?case by (cases i) auto
qed

lemma map_todo_id_map_from [simp]: "map todo_id (map_from k (\<lambda>todo index. todo\<lparr>position := int index\<rparr>) xs) = map todo_id xs"
  by (induction xs arbitrary: k) auto

lemma map_position_map_from: "map position (map_from k (\<lambda>todo index. todo\<lparr>position := int index\<rparr>) xs) = map int [k..<k + length xs]"
  by (induction xs arbitrary: k) (auto simp: upt_rec)

lemma splice_start_le: "splice_start n i \<le> n"
  unfolding splice_start_def by (cases "i < 0") auto

lemma length_insert_at: "u \<le> length ys \<Longrightarrow> length (take u ys @ x # drop u ys) = Suc (length ys)"
  by simp

lemma length_remove_at: "s < length xs \<Longrightarrow> length (take s xs @ drop (Suc s) xs) = length xs - 1"
  by simp

lemma length_arrayMove [simp]: "length (arrayMove xs i j) = length xs"
proof (cases "length xs \<le> splice_start (length xs) i")
  case True
  then show ?thesis by (simp add: arrayMove_def)
next
  case False
  define s where "s = splice_start (length xs) i"
  define nxt where "nxt = take s xs @ drop (Suc s) xs"
  define u where "u = splice_start (length nxt) j"
  have s: "s < length xs" using False by (simp add: s_def)
  have n: "length nxt = length xs - 1" unfolding nxt_def using s by (rule length_remove_at)
  have "u \<le> length nxt" unfolding u_def by (rule splice_start_le)
  then have "length (take u nxt @ xs ! s # drop u nxt) = Suc (length nxt)" by (rule length_insert_at)
  moreover have "arrayMove xs i j = take u nxt @ xs ! s # drop u nxt"
    using False by (simp add: arrayMove_def Let_def s_def nxt_def u_def)
  ultimately show ?thesis using n s by simp
qed

lemma arrayMove_nat:
  "a < length xs \<Longrightarrow> b < length xs \<Longrightarrow>
   arrayMove xs (int a) (int b) = take b (take a xs @ drop (Suc a) xs) @ xs ! a # drop b (take a xs @ drop (Suc a) xs)"
proof -
  assume a: "a < length xs" and b: "b < length xs"
  have s: "splice_start (length xs) (int a) = a" using a by (simp add: splice_start_def)
  have l: "length (take a xs @ drop (Suc a) xs) = length xs - 1" using a by (rule length_remove_at)
  have u: "splice_start (length xs - 1) (int b) = b" using b by (simp add: splice_start_def)
  show ?thesis using a by (simp only: arrayMove_def Let_def s l u) simp
qed

lemma remove_insert: "b \<le> length ys \<Longrightarrow> take b (take b ys @ x # drop b ys) @ drop (Suc b) (take b ys @ x # drop b ys) = ys"
  by simp

lemma insert_nth: "b \<le> length ys \<Longrightarrow> (take b ys @ x # drop b ys) ! b = x"
  by (simp add: nth_append)

lemma insert_remove: "a < length xs \<Longrightarrow> take a (take a xs @ drop (Suc a) xs) @ xs ! a # drop a (take a xs @ drop (Suc a) xs) = xs"
  by (simp add: id_take_nth_drop [symmetric])

lemma arrayMove_roundtrip_nat:
  assumes "a < length xs" "b < length xs"
  shows "arrayMove (arrayMove xs (int a) (int b)) (int b) (int a) = xs"
proof -
  let ?r = "take a xs @ drop (Suc a) xs"
  let ?m = "take b ?r @ xs ! a # drop b ?r"
  have lr: "b \<le> length ?r" using assms by auto
  have m: "arrayMove xs (int a) (int b) = ?m" using assms by (rule arrayMove_nat)
  have lm: "length ?m = length xs" using m length_arrayMove[of xs "int a" "int b"] by simp
  have "arrayMove ?m (int b) (int a) = take a (take b ?m @ drop (Suc b) ?m) @ ?m ! b # drop a (take b ?m @ drop (Suc b) ?m)"
    using assms lm by (intro arrayMove_nat) simp_all
  also have "take b ?m @ drop (Suc b) ?m = ?r" using lr by (rule remove_insert)
  also have "?m ! b = xs ! a" using lr by (rule insert_nth)
  also have "take a ?r @ xs ! a # drop a ?r = xs" using assms(1) by (rule insert_remove)
  finally show ?thesis using m by simp
qed

lemma findIndex_nth_distinct:
  "distinct (map f xs) \<Longrightarrow> i < length xs \<Longrightarrow> findIndex (\<lambda>t. f t = f (xs ! i)) xs = int i"
proof (induction xs arbitrary: i)
  case Nil then show ?case by simp
next
  case (Cons x xs)
  show ?case
  proof (cases i)
    case 0 then show ?thesis by simp
  next
    case (Suc k)
    with Cons.prems have k: "k < length xs" and d: "distinct (map f xs)" by auto
    from Cons.prems Suc nth_mem[OF k] have "f x \<noteq> f (xs ! k)" by auto
    then show ?thesis using Cons.IH[OF d k] Suc by (simp add: Let_def)
  qed
qed

lemma map_arrayMove: "map f (arrayMove xs i j) = arrayMove (map f xs) i j"
proof (cases "length xs \<le> splice_start (length xs) i")
  case True then show ?thesis by (simp add: arrayMove_def)
next
  case False
  then show ?thesis
    by (simp add: arrayMove_def Let_def take_map drop_map)
qed

lemma set_arrayMove_nat:
  assumes "a < length xs" "b < length xs"
  shows "set (arrayMove xs (int a) (int b)) = set xs"
proof -
  let ?r = "take a xs @ drop (Suc a) xs"
  have "set (arrayMove xs (int a) (int b)) = set (take b ?r @ xs ! a # drop b ?r)"
    using assms by (simp only: arrayMove_nat)
  also have "\<dots> = insert (xs ! a) (set (take b ?r @ drop b ?r))" by (simp only: set_append list.set) blast
  also have "take b ?r @ drop b ?r = ?r" by (rule append_take_drop_id)
  also have "insert (xs ! a) (set ?r) = set (take a xs @ xs ! a # drop (Suc a) xs)" by (simp only: set_append list.set) blast
  also have "take a xs @ xs ! a # drop (Suc a) xs = xs" using assms(1) by (rule id_take_nth_drop [symmetric])
  finally show ?thesis .
qed

lemma distinct_arrayMove_nat:
  assumes "distinct xs" "a < length xs" "b < length xs"
  shows "distinct (arrayMove xs (int a) (int b))"
proof -
  have "card (set (arrayMove xs (int a) (int b))) = length (arrayMove xs (int a) (int b))"
    using assms by (simp add: set_arrayMove_nat distinct_card)
  then show ?thesis by (rule card_distinct)
qed

lemma arrayMove_nth_target:
  assumes "a < length xs" "b < length xs"
  shows "arrayMove xs (int a) (int b) ! b = xs ! a"
proof -
  have "b \<le> length (take a xs @ drop (Suc a) xs)" using assms by auto
  then show ?thesis using assms by (simp only: arrayMove_nat insert_nth)
qed

definition erase :: "TodoRecord \<Rightarrow> TodoRecord" where
  "erase t = t\<lparr>position := 0\<rparr>"

lemma map_erase_map_from: "map erase (map_from k (\<lambda>todo index. todo\<lparr>position := int index\<rparr>) xs) = map erase xs"
  by (induction xs arbitrary: k) (auto simp: erase_def)

lemma map_from_erase: "map_from k (\<lambda>todo index. todo\<lparr>position := int index\<rparr>) (map erase xs) = map_from k (\<lambda>todo index. todo\<lparr>position := int index\<rparr>) xs"
  by (induction xs arbitrary: k) (auto simp: erase_def)

lemma map_from_position_eqI: "map erase xs = map erase ys \<Longrightarrow> map_from k (\<lambda>todo index. todo\<lparr>position := int index\<rparr>) xs = map_from k (\<lambda>todo index. todo\<lparr>position := int index\<rparr>) ys"
  by (metis map_from_erase)

lemma normalize_roundtrip:
  assumes "a < length xs" "b < length xs"
  shows "normalizePositions (arrayMove (normalizePositions (arrayMove xs (int a) (int b))) (int b) (int a))
         = normalizePositions xs"
proof -
  have "map erase (arrayMove (normalizePositions (arrayMove xs (int a) (int b))) (int b) (int a))
        = arrayMove (arrayMove (map erase xs) (int a) (int b)) (int b) (int a)"
    by (simp add: map_arrayMove normalizePositions_def map_indexed_def map_erase_map_from)
  also have "\<dots> = map erase xs" using assms by (simp add: arrayMove_roundtrip_nat)
  finally show ?thesis unfolding normalizePositions_def map_indexed_def by (rule map_from_position_eqI)
qed

lemma length_map_from [simp]: "length (map_from k f xs) = length xs"
  by (induction xs arbitrary: k) auto

lemma nth_map_from: "i < length xs \<Longrightarrow> map_from k f xs ! i = f (xs ! i) (k + i)"
proof (induction xs arbitrary: k i)
  case Nil then show ?case by simp
next
  case (Cons x xs) then show ?case by (cases i) auto
qed

lemma length_normalizePositions [simp]: "length (normalizePositions xs) = length xs"
  by (simp add: normalizePositions_def map_indexed_def)

lemma nth_normalizePositions:
  "i < length xs \<Longrightarrow> normalizePositions xs ! i = (xs ! i)\<lparr>position := int i\<rparr>"
  by (simp add: normalizePositions_def map_indexed_def nth_map_from)

lemma map_todo_id_normalizePositions [simp]: "map todo_id (normalizePositions xs) = map todo_id xs"
  by (simp add: normalizePositions_def map_indexed_def)

lemma map_parent_id_map_from: "map parent_id (map_from k (\<lambda>todo index. todo\<lparr>position := int index\<rparr>) xs) = map parent_id xs"
  by (induction xs arbitrary: k) auto

lemma map_parent_id_normalizePositions [simp]: "map parent_id (normalizePositions xs) = map parent_id xs"
  by (simp add: normalizePositions_def map_indexed_def map_parent_id_map_from)

lemma map_position_normalizePositions:
  "map position (normalizePositions xs) = map int [0..<length xs]"
  by (simp add: normalizePositions_def map_indexed_def map_position_map_from)

lemma normalizePositions_idem: "normalizePositions (normalizePositions xs) = normalizePositions xs"
  unfolding normalizePositions_def map_indexed_def
  by (rule map_from_position_eqI) (simp add: map_erase_map_from)

lemma findIndex_lt: "findIndex P xs < int (length xs)"
  by (induction xs) (auto simp: Let_def)

lemma findIndex_ge: "- 1 \<le> findIndex P xs"
  by (induction xs) (auto simp: Let_def)

text \<open>
  Claim C10.  In a sequence whose ids are distinct, dragging the item at index \<open>i\<close> onto
  the item at index \<open>j\<close> puts it at index \<open>j\<close>, and dragging it back onto the item that
  is then at index \<open>i\<close> restores the original order of the ids; the sequence is the
  original one with the positions renormalized.
\<close>

theorem moveTo_round_trip:
  assumes d: "distinct (map todo_id S)" and i: "i < length S" and j: "j < length S"
  shows "let a = todo_id (S ! i);
             S1 = fst (dragOver S a (todo_id (S ! j)));
             S2 = fst (dragOver S1 a (todo_id (S1 ! i)))
         in findIndex (\<lambda>todo. todo_id todo = a) S1 = int j \<and>
            map todo_id S2 = map todo_id S \<and>
            normalizePositions S2 = normalizePositions S"
proof (cases "i = j")
  case True
  have fi: "findIndex (\<lambda>todo. todo_id todo = todo_id (S ! i)) S = int i"
    using d i by (rule findIndex_nth_distinct)
  have "dragOver S (todo_id (S ! i)) (todo_id (S ! i)) = (S, False)"
    by (simp add: dragOver_def Let_def)
  then show ?thesis using True fi by (simp add: Let_def)
next
  case False
  let ?a = "todo_id (S ! i)"
  let ?S1 = "normalizePositions (arrayMove S (int i) (int j))"
  have fi: "findIndex (\<lambda>todo. todo_id todo = ?a) S = int i"
    using d i by (rule findIndex_nth_distinct)
  have fj: "findIndex (\<lambda>todo. todo_id todo = todo_id (S ! j)) S = int j"
    using d j by (rule findIndex_nth_distinct)
  have s1: "fst (dragOver S ?a (todo_id (S ! j))) = ?S1"
    using False fi fj by (simp add: dragOver_def Let_def)
  have len1: "length ?S1 = length S" by simp
  have "distinct (arrayMove (map todo_id S) (int i) (int j))"
    using d i j by (intro distinct_arrayMove_nat) simp_all
  then have d1: "distinct (map todo_id ?S1)" by (simp add: map_arrayMove)
  have aj: "todo_id (?S1 ! j) = ?a"
  proof -
    have "todo_id (?S1 ! j) = map todo_id ?S1 ! j" using j by (simp del: map_todo_id_normalizePositions)
    also have "\<dots> = arrayMove (map todo_id S) (int i) (int j) ! j" by (simp add: map_arrayMove)
    also have "\<dots> = map todo_id S ! i" using i j by (intro arrayMove_nth_target) simp_all
    finally show ?thesis using i by simp
  qed
  have f1: "findIndex (\<lambda>todo. todo_id todo = ?a) ?S1 = int j"
    using findIndex_nth_distinct[OF d1, of j] j aj by simp
  have f2: "findIndex (\<lambda>todo. todo_id todo = todo_id (?S1 ! i)) ?S1 = int i"
    using findIndex_nth_distinct[OF d1, of i] i by simp
  have s2: "fst (dragOver ?S1 ?a (todo_id (?S1 ! i))) = normalizePositions (arrayMove ?S1 (int j) (int i))"
    using False f1 f2 by (simp add: dragOver_def Let_def)
  have rt: "normalizePositions (arrayMove ?S1 (int j) (int i)) = normalizePositions S"
    using i j by (rule normalize_roundtrip)
  have ids: "map todo_id (normalizePositions (arrayMove ?S1 (int j) (int i))) = map todo_id S"
    by (simp only: rt map_todo_id_normalizePositions)
  show ?thesis
    unfolding Let_def s1 s2 using f1 rt ids by (simp add: normalizePositions_idem)
qed

theorem moveTo_round_trip_witness:
  "distinct (map todo_id abc) \<and> (0::nat) < length abc \<and> (2::nat) < length abc \<and>
   map todo_id (fst (dragOver abc ''a'' ''c'')) = [''b'', ''c'', ''a''] \<and>
   map todo_id (fst (dragOver (fst (dragOver abc ''a'' ''c'')) ''a'' ''b'')) = map todo_id abc"
proof -
  have h: "distinct (map todo_id abc)" "(0::nat) < length abc" "(2::nat) < length abc"
    by (simp_all add: abc_def task_def)
  have e: "todo_id (abc ! 0) = ''a''" "todo_id (abc ! 2) = ''c''"
    by (simp_all add: abc_def task_def)
  have s1: "map todo_id (fst (dragOver abc ''a'' ''c'')) = [''b'', ''c'', ''a'']" by code_simp
  have s10: "todo_id (fst (dragOver abc ''a'' ''c'') ! 0) = ''b''" by code_simp
  from moveTo_round_trip[OF h] show ?thesis
    using h s1 by (simp add: Let_def e s10)
qed



section \<open>Removing a task\<close>

lemma length_filter_other_ids:
  "distinct (map todo_id xs) \<Longrightarrow> ident \<in> set (map todo_id xs) \<Longrightarrow>
   length (filter (\<lambda>item. todo_id item \<noteq> ident) xs) = length xs - 1"
proof (induction xs)
  case Nil
  then show ?case by simp
next
  case (Cons x xs)
  show ?case
  proof (cases "todo_id x = ident")
    case True
    with Cons.prems have notin: "ident \<notin> set (map todo_id xs)" by auto
    have "\<forall>item \<in> set xs. todo_id item \<noteq> ident"
    proof
      fix item assume "item \<in> set xs"
      then have "todo_id item \<in> set (map todo_id xs)" by simp
      with notin show "todo_id item \<noteq> ident" by metis
    qed
    then have "filter (\<lambda>item. todo_id item \<noteq> ident) xs = xs" by (simp add: filter_id_conv)
    with True show ?thesis by simp
  next
    case False
    with Cons.prems have "ident \<in> set (map todo_id xs)" and "distinct (map todo_id xs)" by auto
    with Cons.IH have "length (filter (\<lambda>item. todo_id item \<noteq> ident) xs) = length xs - 1" by simp
    moreover from \<open>ident \<in> set (map todo_id xs)\<close> have "xs \<noteq> []" by auto
    ultimately show ?thesis using False by (cases xs) simp_all
  qed
qed

lemma map_todo_id_filter:
  "map todo_id (filter (\<lambda>item. P (todo_id item)) xs) = filter P (map todo_id xs)"
  by (induction xs) auto

lemma ok_api_deleteTodo: "api_deleteTodo ok_api ident = Fulfilled ()"
  by (simp add: ok_api_def rest_api_def deleteTodo_def ok_fetch_def throwOnError_def ok_response_def)

text \<open>
  Claim C5.  When the ids are distinct and the task \<open>ident\<close> is in the list, a delete
  that the store accepts leaves the other tasks in their original relative order, with
  the positions \<open>0, \<dots>, len - 2\<close>.
\<close>

theorem handleDelete_renormalizes:
  assumes "distinct (map todo_id (todos st))"
    and "ident \<in> set (map todo_id (todos st))"
    and "\<not> truthy (busyId st)"
    and "api_deleteTodo a ident = Fulfilled ()"
  shows "todos (fst (handleDelete True a st ident)) =
           normalizePositions (filter (\<lambda>item. todo_id item \<noteq> ident) (todos st)) \<and>
         map position (todos (fst (handleDelete True a st ident))) =
           map int [0..<length (todos st) - 1] \<and>
         map todo_id (todos (fst (handleDelete True a st ident))) =
           filter (\<lambda>k. k \<noteq> ident) (map todo_id (todos st))"
proof -
  have t: "todos (fst (handleDelete True a st ident)) =
           normalizePositions (filter (\<lambda>item. todo_id item \<noteq> ident) (todos st))"
    using assms(3,4) by (simp add: handleDelete_def Let_def render_def)
  have l: "length (filter (\<lambda>item. todo_id item \<noteq> ident) (todos st)) = length (todos st) - 1"
    using assms(1,2) by (rule length_filter_other_ids)
  show ?thesis
    unfolding t using l
    by (simp add: map_position_normalizePositions map_todo_id_filter[of "\<lambda>k. k \<noteq> ident"])
qed

theorem handleDelete_renormalizes_witness:
  "distinct (map todo_id (todos (idle_ui abc))) \<and>
   ''b'' \<in> set (map todo_id (todos (idle_ui abc))) \<and>
   \<not> truthy (busyId (idle_ui abc)) \<and>
   api_deleteTodo ok_api ''b'' = Fulfilled () \<and>
   map position (todos (fst (handleDelete True ok_api (idle_ui abc) ''b''))) = [0, 1] \<and>
   map todo_id (todos (fst (handleDelete True ok_api (idle_ui abc) ''b''))) = [''a'', ''c'']"
proof -
  have h1: "distinct (map todo_id (todos (idle_ui abc)))"
    and h2: "''b'' \<in> set (map todo_id (todos (idle_ui abc)))"
    and h3: "\<not> truthy (busyId (idle_ui abc))"
    by (simp_all add: idle_ui_def abc_def task_def truthy_def)
  have h4: "api_deleteTodo ok_api ''b'' = Fulfilled ()" by (rule ok_api_deleteTodo)
  have len: "length (todos (idle_ui abc)) = 3" by (simp add: idle_ui_def abc_def)
  have ids: "map todo_id (todos (idle_ui abc)) = [''a'', ''b'', ''c'']"
    by (simp add: idle_ui_def abc_def task_def)
  have up: "[0..<2] = [0, Suc 0]" by (simp add: upt_rec)
  note r = handleDelete_renormalizes[OF h1 h2 h3 h4]
  have p: "map position (todos (fst (handleDelete True ok_api (idle_ui abc) ''b''))) = [0, 1]"
    using r[THEN conjunct2, THEN conjunct1] by (simp add: len up)
  have q: "map todo_id (todos (fst (handleDelete True ok_api (idle_ui abc) ''b''))) = [''a'', ''c'']"
    using r[THEN conjunct2, THEN conjunct2] by (simp add: ids)
  show ?thesis using h1 h2 h3 h4 p q by blast
qed



section \<open>Committing an empty title\<close>

lemma trim_blank: "trim [0x20, 0xA0] = []"
  by (simp add: trim_def is_space_def)

text \<open>
  \<^verbatim>\<open>trim\<close> removes the white space beyond ASCII too, and only at the two ends: here an
  ideographic space, a byte order mark and a line separator before \<open>a b\<close>, and a no-break
  space and a tab after it.
\<close>

lemma trim_unicode_space:
  "trim [0x3000, 0xFEFF, 0x2028, 0x61, 0x20, 0x62, 0xA0, 0x09] = [0x61, 0x20, 0x62]"
  by (simp add: trim_def is_space_def)

text \<open>
  Claim C7, as stated, fails on the nested list with keyboard gestures: a commit with a
  blank title returns there without setting any message.
\<close>

theorem saveEditSilent_no_validation_error:
  "editingId blank_edit_ui = Some ''b'' \<and> editingTitle blank_edit_ui = [0x20, 0xA0] \<and>
   trim (editingTitle blank_edit_ui) = [] \<and>
   error (fst (saveEditSilent True ok_api blank_edit_ui)) = None \<and>
   saveEditSilent True ok_api blank_edit_ui = (blank_edit_ui, [])"
  by (simp add: blank_edit_ui_def idle_ui_def saveEditSilent_def trim_blank truthy_def)

text \<open>
  Claim C7, amended.  A commit whose trimmed title is empty, on a task that is being
  edited while nothing is busy: the version with delete-on-empty deletes the task (when
  the store accepts the delete, the task is removed, the positions are renormalized, the
  edit is closed and no message is set); the flat versions set the message
  \<open>Todo title cannot be empty.\<close> and the keyboard version sets none, and both leave
  everything else as it was, the edit open, and call nothing.
\<close>

theorem empty_title_commit:
  assumes "truthy (editingId st)" and "\<not> truthy (busyId st)" and "trim (editingTitle st) = []"
  shows "(api_deleteTodo a (the (editingId st)) = Fulfilled () \<longrightarrow>
            snd (saveEditOrDelete True a st) = [CallDeleteTodo (the (editingId st))] \<and>
            todos (fst (saveEditOrDelete True a st)) =
              normalizePositions (filter (\<lambda>item. todo_id item \<noteq> the (editingId st)) (todos st)) \<and>
            error (fst (saveEditOrDelete True a st)) = None \<and>
            editingId (fst (saveEditOrDelete True a st)) = None) \<and>
         saveEdit True a st = (st\<lparr>error := Some ''Todo title cannot be empty.''\<rparr>, []) \<and>
         saveEditSilent True a st = (st, [])"
  using assms by (simp add: saveEditOrDelete_def saveEdit_def saveEditSilent_def Let_def render_def)

theorem empty_title_commit_witness:
  "truthy (editingId blank_edit_ui) \<and> \<not> truthy (busyId blank_edit_ui) \<and>
   editingTitle blank_edit_ui = [0x20, 0xA0] \<and>
   trim (editingTitle blank_edit_ui) = [] \<and>
   api_deleteTodo ok_api (the (editingId blank_edit_ui)) = Fulfilled () \<and>
   map todo_id (todos (fst (saveEditOrDelete True ok_api blank_edit_ui))) = [''a'', ''c''] \<and>
   map position (todos (fst (saveEditOrDelete True ok_api blank_edit_ui))) = [0, 1] \<and>
   error (fst (saveEdit True ok_api blank_edit_ui)) = Some ''Todo title cannot be empty.'' \<and>
   editingId (fst (saveEdit True ok_api blank_edit_ui)) = Some ''b'' \<and>
   saveEditSilent True ok_api blank_edit_ui = (blank_edit_ui, [])"
proof -
  have h1: "truthy (editingId blank_edit_ui)" and h2: "\<not> truthy (busyId blank_edit_ui)"
    and h3: "trim (editingTitle blank_edit_ui) = []"
    by (simp_all add: blank_edit_ui_def idle_ui_def truthy_def trim_blank)
  have h4: "api_deleteTodo ok_api (the (editingId blank_edit_ui)) = Fulfilled ()"
    by (rule ok_api_deleteTodo)
  note r = empty_title_commit[OF h1 h2 h3, of ok_api]
  have e: "the (editingId blank_edit_ui) = ''b''" "editingId blank_edit_ui = Some ''b''"
    "todos blank_edit_ui = abc"
    by (simp_all add: blank_edit_ui_def idle_ui_def)
  have f: "normalizePositions (filter (\<lambda>item. todo_id item \<noteq> ''b'') abc) =
           [(task ''a'' None)\<lparr>position := 0\<rparr>, (task ''c'' None)\<lparr>position := 1\<rparr>]"
    by (simp add: abc_def task_def normalizePositions_def map_indexed_def)
  from r h4 have d: "todos (fst (saveEditOrDelete True ok_api blank_edit_ui)) =
      normalizePositions (filter (\<lambda>item. todo_id item \<noteq> ''b'') abc)"
    by (simp add: e)
  have d1: "map todo_id (todos (fst (saveEditOrDelete True ok_api blank_edit_ui))) = [''a'', ''c'']"
    unfolding d f by (simp add: task_def)
  have d2: "map position (todos (fst (saveEditOrDelete True ok_api blank_edit_ui))) = [0, 1]"
    unfolding d f by (simp add: task_def)
  from r have s: "saveEdit True ok_api blank_edit_ui =
      (blank_edit_ui\<lparr>error := Some ''Todo title cannot be empty.''\<rparr>, [])"
    and q: "saveEditSilent True ok_api blank_edit_ui = (blank_edit_ui, [])"
    by blast+
  have et: "editingTitle blank_edit_ui = [0x20, 0xA0]" by (simp add: blank_edit_ui_def)
  show ?thesis using h1 h2 h3 h4 d1 d2 q et by (simp add: s e)
qed

section \<open>Deleting a selection\<close>

lemma promise_all_Fulfilled:
  "(\<And>x. x \<in> set xs \<Longrightarrow> f x = Fulfilled (g x)) \<Longrightarrow> promise_all (map f xs) = Fulfilled (map g xs)"
  by (induction xs) auto

lemma delete_all_accepted:
  "(\<And>k. k \<in> set targetIds \<Longrightarrow> api_deleteTodo a k = Fulfilled ()) \<Longrightarrow>
   delete_all a targetIds = Fulfilled (map (\<lambda>k. ()) targetIds)"
  unfolding delete_all_def by (rule promise_all_Fulfilled)

lemma set_unique_ids [simp]: "set (unique_ids xs) = set xs"
  by (simp add: unique_ids_def)

lemma unique_ids_Nil_iff [simp]: "unique_ids xs = [] \<longleftrightarrow> xs = []"
  by (simp add: unique_ids_def)

lemma todos_persistCurrentOrder [simp]: "todos (fst (persistCurrentOrder a st)) = todos st"
  by (simp add: persistCurrentOrder_def Let_def split: outcome.splits)

lemma deleteFocusedSelection_todos:
  assumes "selectedTodoIds st \<noteq> []" and "activeId \<in> set (selectedTodoIds st)"
    and "\<not> truthy (busyId st)" and "\<not> truthy (editingId st)"
    and "\<forall>k. api_deleteTodo a k = Fulfilled ()"
  shows "todos (fst (deleteFocusedSelection True a st activeId)) =
           normalizePositions
             (filter (\<lambda>todo. todo_id todo \<notin> set (selectedTodoIds st)) (latestTodosRef st))"
proof -
  have da: "delete_all a (unique_ids (selectedTodoIds st)) =
              Fulfilled (map (\<lambda>k. ()) (unique_ids (selectedTodoIds st)))"
    using assms(5) by (intro delete_all_accepted) simp
  show ?thesis
    using assms(1-4) by (simp add: deleteFocusedSelection_def Let_def da)
qed

lemma handleDeleteSelection_todos:
  assumes "selectedTodoIds st \<noteq> []" and "\<not> truthy (busyId st)"
    and "\<forall>k. api_deleteTodo a k = Fulfilled ()"
    and "\<forall>ks. api_updateTodoPositions a ks = Fulfilled ()"
  shows "todos (fst (handleDeleteSelection True a st)) =
           normalizePositions
             (filter (\<lambda>item. todo_id item \<notin> set (selectedTodoIds st)) (todos st))"
proof -
  have db: "delete_all a (selectedTodoIds st) = Fulfilled (map (\<lambda>k. ()) (selectedTodoIds st))"
    using assms(3) by (intro delete_all_accepted) simp
  show ?thesis
    using assms(1,2,4) by (simp add: handleDeleteSelection_def Let_def db)
qed


lemma ok_api_updateTodoPositions: "api_updateTodoPositions ok_api ks = Fulfilled ()"
proof -
  have "promise_all (map_from k (update_position ok_fetch) ks) =
          Fulfilled (map (\<lambda>x. ()) ks)" for k
    by (induction ks arbitrary: k)
       (simp_all add: update_position_def ok_fetch_def throwOnError_def ok_response_def)
  then show ?thesis
    by (simp add: ok_api_def rest_api_def updateTodoPositions_def initial_client_def map_indexed_def)
qed




section \<open>Persisting an order\<close>

lemma length_map_indexed [simp]: "length (map_indexed f xs) = length xs"
  by (simp add: map_indexed_def)

lemma nth_map_indexed: "i < length xs \<Longrightarrow> map_indexed f xs ! i = f (xs ! i) i"
  by (simp add: map_indexed_def nth_map_from)

lemma promise_all_rejects:
  "Rejected m \<in> set outs \<Longrightarrow> \<exists>m'. promise_all outs = Rejected m'"
proof (induction outs)
  case Nil
  then show ?case by simp
next
  case (Cons x outs)
  show ?case
  proof (cases x)
    case (Rejected m')
    then show ?thesis by simp
  next
    case (Fulfilled v)
    with Cons.prems have "Rejected m \<in> set outs" by simp
    with Cons.IH obtain m' where "promise_all outs = Rejected m'" by blast
    with Fulfilled show ?thesis by simp
  qed
qed

lemma promise_all_fulfils:
  "\<forall>x \<in> set outs. \<exists>v. x = Fulfilled v \<Longrightarrow> \<exists>vs. promise_all outs = Fulfilled vs"
proof (induction outs)
  case Nil
  then show ?case by simp
next
  case (Cons x outs)
  then obtain v vs where "x = Fulfilled v" and "promise_all outs = Fulfilled vs" by auto
  then show ?case by simp
qed

lemma updateTodoPositions_unsupported:
  "supportsPositionColumn cl = Some False \<Longrightarrow>
   updateTodoPositions env fetch cl orderedIds = ([], Fulfilled ())"
  by (simp add: updateTodoPositions_def)

lemma updateTodoPositions_requests:
  "supportsPositionColumn cl \<noteq> Some False \<Longrightarrow>
   fst (updateTodoPositions True fetch cl orderedIds) = map_indexed position_request orderedIds"
  by (simp add: updateTodoPositions_def)

lemma updateTodoPositions_rejects:
  assumes "supportsPositionColumn cl \<noteq> Some False" and "i < length orderedIds"
    and "update_position fetch (orderedIds ! i) i = Rejected m"
  shows "\<exists>m'. snd (updateTodoPositions True fetch cl orderedIds) = Rejected m'"
proof -
  have "map_indexed (update_position fetch) orderedIds ! i = Rejected m"
    using assms(2,3) by (simp add: nth_map_indexed)
  moreover have "i < length (map_indexed (update_position fetch) orderedIds)"
    using assms(2) by simp
  ultimately have "Rejected m \<in> set (map_indexed (update_position fetch) orderedIds)"
    by (metis nth_mem)
  then obtain m' where "promise_all (map_indexed (update_position fetch) orderedIds) = Rejected m'"
    using promise_all_rejects by blast
  then show ?thesis using assms(1) by (simp add: updateTodoPositions_def)
qed

lemma updateTodoPositions_fulfils:
  assumes "supportsPositionColumn cl \<noteq> Some False"
    and "\<forall>i<length orderedIds. update_position fetch (orderedIds ! i) i = Fulfilled ()"
  shows "snd (updateTodoPositions True fetch cl orderedIds) = Fulfilled ()"
proof -
  have "\<forall>x \<in> set (map_indexed (update_position fetch) orderedIds). \<exists>v. x = Fulfilled v"
  proof
    fix x assume "x \<in> set (map_indexed (update_position fetch) orderedIds)"
    then obtain i where "i < length orderedIds" and "x = map_indexed (update_position fetch) orderedIds ! i"
      by (auto simp: in_set_conv_nth)
    with assms(2) show "\<exists>v. x = Fulfilled v" by (simp add: nth_map_indexed)
  qed
  then obtain vs where "promise_all (map_indexed (update_position fetch) orderedIds) = Fulfilled vs"
    using promise_all_fulfils by blast
  then show ?thesis using assms(1) by (simp add: updateTodoPositions_def)
qed

lemma handlePointerUp_rejected:
  assumes "positioningAvailable st"
    and "api_updateTodoPositions a (map todo_id (latestTodosRef st)) = Rejected m"
  shows "handlePointerUp a (st, True) =
           (st\<lparr>draggingId := None, error := Some m, isSavingOrder := False\<rparr>,
            [CallUpdateTodoPositions (map todo_id (latestTodosRef st))])"
  using assms by (simp add: handlePointerUp_def Let_def)

lemma handleMoveActiveTodo_rejected:
  assumes "truthy (activeTodoId st)" and "activeTodoId st \<noteq> Some NEW_TASK_ACTIVE_ID"
    and "\<not> truthy (busyId st)" and "\<not> truthy (editingId st)"
    and "reorderBySiblingMove (todos st) (the (activeTodoId st)) direction = Some reordered"
    and "api_updateTodoPositions a (map todo_id reordered) = Rejected m"
  shows "handleMoveActiveTodo True a st direction =
           (st\<lparr>error := Some m, todos := todos st, busyId := None\<rparr>,
            [CallUpdateTodoPositions (map todo_id reordered)])"
  using assms by (simp add: handleMoveActiveTodo_def Let_def)

text \<open>
  Claim C1, as stated, fails on the drag handler: when the store rejects the new
  position of \<open>a\<close> after \<open>b\<close> was dragged over it, the message is shown and the list stays
  in the dragged order \<open>b, a, c\<close>.
\<close>

theorem failed_drag_keeps_dragged_order:
  "map todo_id (todos (idle_ui abc)) = [''a'', ''b'', ''c''] \<and>
   snd failed_drag = [CallUpdateTodoPositions [''b'', ''a'', ''c'']] \<and>
   error (fst failed_drag) = Some ''boom'' \<and>
   map todo_id (todos (fst failed_drag)) = [''b'', ''a'', ''c'']"
  by code_simp

lemma update_position_cases:
  "(fetch (PatchTodo ident None ''return=minimal''
             \<lparr>patch_title = None, patch_is_completed = None, patch_position = Some (int i),
              patch_parent_id = None\<rparr>) = Rejected m \<longrightarrow>
      update_position fetch ident i = Rejected m) \<and>
   (fetch (PatchTodo ident None ''return=minimal''
             \<lparr>patch_title = None, patch_is_completed = None, patch_position = Some (int i),
              patch_parent_id = None\<rparr>) = Fulfilled resp \<and> \<not> ok resp \<longrightarrow>
      update_position fetch ident i = Rejected (error_message resp)) \<and>
   (fetch (PatchTodo ident None ''return=minimal''
             \<lparr>patch_title = None, patch_is_completed = None, patch_position = Some (int i),
              patch_parent_id = None\<rparr>) = Fulfilled resp \<and> ok resp \<longrightarrow>
      update_position fetch ident i = Fulfilled ())"
  by (simp add: update_position_def position_request_def empty_patch_def throwOnError_def)

text \<open>
  Claim C1, amended.  With the store configured: \<^verbatim>\<open>updateTodoPositions\<close> sends nothing
  and succeeds when the position column is unsupported.  Otherwise it sends one request
  for every index \<open>i\<close>: a \<^verbatim>\<open>PATCH\<close> of the row whose id is the \<open>i\<close>-th id, with the header
  \<^verbatim>\<open>Prefer: return=minimal\<close> and a body that holds the position \<open>i\<close> and nothing else.  It
  rejects when one of these requests fails on the network or is answered with a response
  that is not ok, and fulfils when all are answered ok.  When it rejects, the drag handler
  shows the message; the keyboard move of the nested list shows the message and puts the
  list back as it was before the move.
\<close>

theorem reposition_batch:
  "(supportsPositionColumn cl = Some False \<longrightarrow>
      updateTodoPositions True fetch cl orderedIds = ([], Fulfilled ())) \<and>
   (supportsPositionColumn cl \<noteq> Some False \<longrightarrow>
      length (fst (updateTodoPositions True fetch cl orderedIds)) = length orderedIds \<and>
      (\<forall>i<length orderedIds.
         fst (updateTodoPositions True fetch cl orderedIds) ! i =
           PatchTodo (orderedIds ! i) None ''return=minimal''
             \<lparr>patch_title = None, patch_is_completed = None, patch_position = Some (int i),
              patch_parent_id = None\<rparr>) \<and>
      ((\<exists>i<length orderedIds. \<exists>m.
          fetch (PatchTodo (orderedIds ! i) None ''return=minimal''
                   \<lparr>patch_title = None, patch_is_completed = None, patch_position = Some (int i),
                    patch_parent_id = None\<rparr>) = Rejected m) \<longrightarrow>
       (\<exists>m. snd (updateTodoPositions True fetch cl orderedIds) = Rejected m)) \<and>
      ((\<exists>i<length orderedIds. \<exists>resp.
          fetch (PatchTodo (orderedIds ! i) None ''return=minimal''
                   \<lparr>patch_title = None, patch_is_completed = None, patch_position = Some (int i),
                    patch_parent_id = None\<rparr>) = Fulfilled resp \<and> \<not> ok resp) \<longrightarrow>
       (\<exists>m. snd (updateTodoPositions True fetch cl orderedIds) = Rejected m)) \<and>
      ((\<forall>i<length orderedIds. \<exists>resp.
          fetch (PatchTodo (orderedIds ! i) None ''return=minimal''
                   \<lparr>patch_title = None, patch_is_completed = None, patch_position = Some (int i),
                    patch_parent_id = None\<rparr>) = Fulfilled resp \<and> ok resp) \<longrightarrow>
       snd (updateTodoPositions True fetch cl orderedIds) = Fulfilled ())) \<and>
   (positioningAvailable st \<and>
    api_updateTodoPositions a (map todo_id (latestTodosRef st)) = Rejected m \<longrightarrow>
      error (fst (handlePointerUp a (st, True))) = Some m) \<and>
   (truthy (activeTodoId st) \<and> activeTodoId st \<noteq> Some NEW_TASK_ACTIVE_ID \<and>
    \<not> truthy (busyId st) \<and> \<not> truthy (editingId st) \<and>
    reorderBySiblingMove (todos st) (the (activeTodoId st)) direction = Some reordered \<and>
    api_updateTodoPositions a (map todo_id reordered) = Rejected m \<longrightarrow>
      todos (fst (handleMoveActiveTodo True a st direction)) = todos st \<and>
      error (fst (handleMoveActiveTodo True a st direction)) = Some m)"
proof (intro conjI impI)
  assume "supportsPositionColumn cl = Some False"
  then show "updateTodoPositions True fetch cl orderedIds = ([], Fulfilled ())"
    by (rule updateTodoPositions_unsupported)
next
  assume "supportsPositionColumn cl \<noteq> Some False"
  then show "length (fst (updateTodoPositions True fetch cl orderedIds)) = length orderedIds"
    by (simp add: updateTodoPositions_requests)
next
  assume "supportsPositionColumn cl \<noteq> Some False"
  then show "\<forall>i<length orderedIds.
         fst (updateTodoPositions True fetch cl orderedIds) ! i =
           PatchTodo (orderedIds ! i) None ''return=minimal''
             \<lparr>patch_title = None, patch_is_completed = None, patch_position = Some (int i),
              patch_parent_id = None\<rparr>"
    by (simp add: updateTodoPositions_requests nth_map_indexed position_request_def empty_patch_def)
next
  assume s: "supportsPositionColumn cl \<noteq> Some False"
    and "\<exists>i<length orderedIds. \<exists>m.
          fetch (PatchTodo (orderedIds ! i) None ''return=minimal''
                   \<lparr>patch_title = None, patch_is_completed = None, patch_position = Some (int i),
                    patch_parent_id = None\<rparr>) = Rejected m"
  then obtain i m where i: "i < length orderedIds"
    and "fetch (PatchTodo (orderedIds ! i) None ''return=minimal''
                   \<lparr>patch_title = None, patch_is_completed = None, patch_position = Some (int i),
                    patch_parent_id = None\<rparr>) = Rejected m"
    by blast
  then have "update_position fetch (orderedIds ! i) i = Rejected m"
    using update_position_cases[of fetch "orderedIds ! i" i m] by blast
  with s i show "\<exists>m. snd (updateTodoPositions True fetch cl orderedIds) = Rejected m"
    by (rule updateTodoPositions_rejects)
next
  assume s: "supportsPositionColumn cl \<noteq> Some False"
    and "\<exists>i<length orderedIds. \<exists>resp.
          fetch (PatchTodo (orderedIds ! i) None ''return=minimal''
                   \<lparr>patch_title = None, patch_is_completed = None, patch_position = Some (int i),
                    patch_parent_id = None\<rparr>) = Fulfilled resp \<and> \<not> ok resp"
  then obtain i resp where i: "i < length orderedIds"
    and "fetch (PatchTodo (orderedIds ! i) None ''return=minimal''
                   \<lparr>patch_title = None, patch_is_completed = None, patch_position = Some (int i),
                    patch_parent_id = None\<rparr>) = Fulfilled resp \<and> \<not> ok resp"
    by blast
  then have "update_position fetch (orderedIds ! i) i = Rejected (error_message resp)"
    using update_position_cases[of fetch "orderedIds ! i" i _ resp] by blast
  with s i show "\<exists>m. snd (updateTodoPositions True fetch cl orderedIds) = Rejected m"
    by (rule updateTodoPositions_rejects)
next
  assume s: "supportsPositionColumn cl \<noteq> Some False"
    and all: "\<forall>i<length orderedIds. \<exists>resp.
          fetch (PatchTodo (orderedIds ! i) None ''return=minimal''
                   \<lparr>patch_title = None, patch_is_completed = None, patch_position = Some (int i),
                    patch_parent_id = None\<rparr>) = Fulfilled resp \<and> ok resp"
  have "\<forall>i<length orderedIds. update_position fetch (orderedIds ! i) i = Fulfilled ()"
  proof (intro allI impI)
    fix i assume "i < length orderedIds"
    with all obtain resp where
      "fetch (PatchTodo (orderedIds ! i) None ''return=minimal''
                   \<lparr>patch_title = None, patch_is_completed = None, patch_position = Some (int i),
                    patch_parent_id = None\<rparr>) = Fulfilled resp \<and> ok resp"
      by blast
    then show "update_position fetch (orderedIds ! i) i = Fulfilled ()"
      using update_position_cases[of fetch "orderedIds ! i" i _ resp] by blast
  qed
  with s show "snd (updateTodoPositions True fetch cl orderedIds) = Fulfilled ()"
    by (rule updateTodoPositions_fulfils)
next
  assume "positioningAvailable st \<and>
    api_updateTodoPositions a (map todo_id (latestTodosRef st)) = Rejected m"
  then show "error (fst (handlePointerUp a (st, True))) = Some m"
    by (simp add: handlePointerUp_rejected)
next
  assume h: "truthy (activeTodoId st) \<and> activeTodoId st \<noteq> Some NEW_TASK_ACTIVE_ID \<and>
    \<not> truthy (busyId st) \<and> \<not> truthy (editingId st) \<and>
    reorderBySiblingMove (todos st) (the (activeTodoId st)) direction = Some reordered \<and>
    api_updateTodoPositions a (map todo_id reordered) = Rejected m"
  then have r: "handleMoveActiveTodo True a st direction =
           (st\<lparr>error := Some m, todos := todos st, busyId := None\<rparr>,
            [CallUpdateTodoPositions (map todo_id reordered)])"
    by (intro handleMoveActiveTodo_rejected) simp_all
  show "todos (fst (handleMoveActiveTodo True a st direction)) = todos st" by (simp add: r)
  show "error (fst (handleMoveActiveTodo True a st direction)) = Some m" by (simp add: r)
qed

theorem reposition_batch_witness:
  "updateTodoPositions True (failing_fetch ''a'' ''boom'') unsupported_client [''b'', ''a'', ''c'']
     = ([], Fulfilled ()) \<and>
   supportsPositionColumn initial_client \<noteq> Some False \<and>
   fst (updateTodoPositions True (failing_fetch ''a'' ''boom'') initial_client [''b'', ''a'', ''c'']) =
     [PatchTodo ''b'' None ''return=minimal''
        \<lparr>patch_title = None, patch_is_completed = None, patch_position = Some 0,
         patch_parent_id = None\<rparr>,
      PatchTodo ''a'' None ''return=minimal''
        \<lparr>patch_title = None, patch_is_completed = None, patch_position = Some 1,
         patch_parent_id = None\<rparr>,
      PatchTodo ''c'' None ''return=minimal''
        \<lparr>patch_title = None, patch_is_completed = None, patch_position = Some 2,
         patch_parent_id = None\<rparr>] \<and>
   failing_fetch ''a'' ''boom''
     (PatchTodo ''a'' None ''return=minimal''
        \<lparr>patch_title = None, patch_is_completed = None, patch_position = Some 1,
         patch_parent_id = None\<rparr>) = Fulfilled (failing_response ''boom'') \<and>
   \<not> ok (failing_response ''boom'') \<and>
   (\<exists>m. snd (updateTodoPositions True (failing_fetch ''a'' ''boom'') initial_client [''b'', ''a'', ''c''])
      = Rejected m) \<and>
   snd (updateTodoPositions True (failing_fetch ''a'' ''boom'') initial_client [''b'', ''a'', ''c''])
     = Rejected ''boom'' \<and>
   ok ok_response \<and>
   snd (updateTodoPositions True ok_fetch initial_client [''b'', ''a'', ''c'']) = Fulfilled () \<and>
   positioningAvailable (idle_ui bac) \<and>
   api_updateTodoPositions (failing_api ''a'' ''boom'') (map todo_id (latestTodosRef (idle_ui bac)))
     = Rejected ''boom'' \<and>
   error (fst (handlePointerUp (failing_api ''a'' ''boom'') (idle_ui bac, True))) = Some ''boom'' \<and>
   truthy (activeTodoId b_active_ui) \<and> activeTodoId b_active_ui \<noteq> Some NEW_TASK_ACTIVE_ID \<and>
   \<not> truthy (busyId b_active_ui) \<and> \<not> truthy (editingId b_active_ui) \<and>
   reorderBySiblingMove (todos b_active_ui) (the (activeTodoId b_active_ui)) (- 1) = Some bac \<and>
   api_updateTodoPositions (failing_api ''a'' ''boom'') (map todo_id bac) = Rejected ''boom'' \<and>
   todos (fst (handleMoveActiveTodo True (failing_api ''a'' ''boom'') b_active_ui (- 1))) = abc \<and>
   error (fst (handleMoveActiveTodo True (failing_api ''a'' ''boom'') b_active_ui (- 1))) = Some ''boom''"
proof -
  let ?ids = "[''b'', ''a'', ''c'']"
  let ?ff = "failing_fetch ''a'' ''boom''"
  let ?fa = "failing_api ''a'' ''boom''"
  let ?req = "\<lambda>ident i. PatchTodo ident None ''return=minimal''
        \<lparr>patch_title = None, patch_is_completed = None, patch_position = Some (int i),
         patch_parent_id = None\<rparr>"
  have u: "supportsPositionColumn unsupported_client = Some False"
    by (simp add: unsupported_client_def)
  have s: "supportsPositionColumn initial_client \<noteq> Some False"
    by (simp add: initial_client_def)
  have bad: "?ff (?req ''a'' 1) = Fulfilled (failing_response ''boom'')"
    by (simp add: failing_fetch_def)
  have nok: "\<not> ok (failing_response ''boom'')" by (simp add: failing_response_def)
  have okr: "ok ok_response" by (simp add: ok_response_def)
  have good: "\<forall>i<length ?ids. \<exists>resp. ok_fetch (?req (?ids ! i) i) = Fulfilled resp \<and> ok resp"
    by (simp add: ok_fetch_def okr)
  have msg: "snd (updateTodoPositions True ?ff initial_client ?ids) = Rejected ''boom''"
    by code_simp
  have p: "positioningAvailable (idle_ui bac)" by (simp add: idle_ui_def)
  have rj: "api_updateTodoPositions ?fa (map todo_id (latestTodosRef (idle_ui bac))) = Rejected ''boom''"
    by code_simp
  have g1: "truthy (activeTodoId b_active_ui)"
    and g2: "activeTodoId b_active_ui \<noteq> Some NEW_TASK_ACTIVE_ID"
    and g3: "\<not> truthy (busyId b_active_ui)" and g4: "\<not> truthy (editingId b_active_ui)"
    by (simp_all add: b_active_ui_def idle_ui_def truthy_def NEW_TASK_ACTIVE_ID_def)
  have mv: "reorderBySiblingMove (todos b_active_ui) (the (activeTodoId b_active_ui)) (- 1) = Some bac"
    by code_simp
  have rj2: "api_updateTodoPositions ?fa (map todo_id bac) = Rejected ''boom''" by code_simp
  have t: "todos b_active_ui = abc" by (simp add: b_active_ui_def idle_ui_def)
  note a1 = reposition_batch[of unsupported_client ?ff ?ids "idle_ui bac" ?fa "''boom''" "- 1" bac]
  note a2 = reposition_batch[of initial_client ?ff ?ids "idle_ui bac" ?fa "''boom''" "- 1" bac]
  note a3 = reposition_batch[of initial_client ok_fetch ?ids b_active_ui ?fa "''boom''" "- 1" bac]
  have c1: "updateTodoPositions True ?ff unsupported_client ?ids = ([], Fulfilled ())"
    using a1 u by blast
  have c2: "fst (updateTodoPositions True ?ff initial_client ?ids) =
              [?req ''b'' 0, ?req ''a'' 1, ?req ''c'' 2]"
  proof (rule nth_equalityI)
    from a2 s show "length (fst (updateTodoPositions True ?ff initial_client ?ids)) =
        length [?req ''b'' 0, ?req ''a'' 1, ?req ''c'' 2]"
      by simp
  next
    fix i assume "i < length (fst (updateTodoPositions True ?ff initial_client ?ids))"
    with a2 s have i: "i < length ?ids" by simp
    with a2 s have e: "fst (updateTodoPositions True ?ff initial_client ?ids) ! i = ?req (?ids ! i) i"
      by blast
    from i have "i = 0 \<or> i = 1 \<or> i = 2" by auto
    then show "fst (updateTodoPositions True ?ff initial_client ?ids) ! i =
        [?req ''b'' 0, ?req ''a'' 1, ?req ''c'' 2] ! i"
      unfolding e by auto
  qed
  have c3: "\<exists>m. snd (updateTodoPositions True ?ff initial_client ?ids) = Rejected m"
  proof -
    have "\<exists>i<length ?ids. \<exists>resp. ?ff (?req (?ids ! i) i) = Fulfilled resp \<and> \<not> ok resp"
      using bad nok by (intro exI[of _ 1]) simp
    with a2 s show ?thesis by blast
  qed
  have c4: "snd (updateTodoPositions True ok_fetch initial_client ?ids) = Fulfilled ()"
    using a3 s good by blast
  have c5: "error (fst (handlePointerUp ?fa (idle_ui bac, True))) = Some ''boom''"
    using a2 p rj by blast
  have c6: "todos (fst (handleMoveActiveTodo True ?fa b_active_ui (- 1))) = todos b_active_ui \<and>
            error (fst (handleMoveActiveTodo True ?fa b_active_ui (- 1))) = Some ''boom''"
    using a3 g1 g2 g3 g4 mv rj2 by blast
  have c2': "fst (updateTodoPositions True ?ff initial_client ?ids) =
     [PatchTodo ''b'' None ''return=minimal''
        \<lparr>patch_title = None, patch_is_completed = None, patch_position = Some 0,
         patch_parent_id = None\<rparr>,
      PatchTodo ''a'' None ''return=minimal''
        \<lparr>patch_title = None, patch_is_completed = None, patch_position = Some 1,
         patch_parent_id = None\<rparr>,
      PatchTodo ''c'' None ''return=minimal''
        \<lparr>patch_title = None, patch_is_completed = None, patch_position = Some 2,
         patch_parent_id = None\<rparr>]"
    using c2 by simp
  have bad': "?ff (PatchTodo ''a'' None ''return=minimal''
        \<lparr>patch_title = None, patch_is_completed = None, patch_position = Some 1,
         patch_parent_id = None\<rparr>) = Fulfilled (failing_response ''boom'')"
    using bad by simp
  show ?thesis
    unfolding t[symmetric]
    by (intro conjI c1 s c2' bad' nok c3 msg okr c4 p rj c5 g1 g2 g3 g4 mv rj2
        c6[THEN conjunct1] c6[THEN conjunct2])
qed



section \<open>Loading from a store without the position column\<close>

lemma mentions_position_first: "mentions_position (GetTodos positionedColumns positioned_order)"
  by code_simp

lemma mentions_position_second: "mentions_position (GetTodos positionedNoParentColumns positioned_order)"
  by code_simp

lemma mentions_position_fallback: "\<not> mentions_position (GetTodos baseColumns [''created_at.asc''])"
  by code_simp

lemma lacks_position_columnD:
  "lacks_position_column fetch \<Longrightarrow> mentions_position req \<Longrightarrow> fetch req = Fulfilled resp \<Longrightarrow> \<not> ok resp"
  unfolding lacks_position_column_def by (auto split: outcome.splits)

lemma listTodos_keeps_unsupported:
  assumes lacks: "lacks_position_column fetch" and off: "supportsPositionColumn cl = Some False"
  shows "supportsPositionColumn (fst (listTodos env fetch cl)) = Some False"
proof (cases "fetch (GetTodos positionedColumns positioned_order)")
  case (Rejected m)
  with off show ?thesis by (simp add: listTodos_def)
next
  case first: (Fulfilled r1)
  have n1: "\<not> ok r1"
    using lacks mentions_position_first first by (rule lacks_position_columnD)
  show ?thesis
  proof (cases "isMissingParentColumn (fallbackReason_of r1)")
    case True
    show ?thesis
    proof (cases "fetch (GetTodos positionedNoParentColumns positioned_order)")
      case (Rejected m)
      with off first n1 True show ?thesis by (simp add: listTodos_def Let_def)
    next
      case second: (Fulfilled r2)
      have "\<not> ok r2"
        using lacks mentions_position_second second by (rule lacks_position_columnD)
      with off first n1 True second show ?thesis
        by (simp add: listTodos_def Let_def throwOnError_def)
    qed
  next
    case False
    with off first n1 show ?thesis
      by (simp add: listTodos_def Let_def throwOnError_def split: outcome.splits)
  qed
qed

lemma client_step_keeps_unsupported:
  "lacks_position_column fetch \<Longrightarrow> supportsPositionColumn cl = Some False \<Longrightarrow>
   supportsPositionColumn (client_step env fetch cl call) = Some False"
  by (cases call) (simp_all add: listTodos_keeps_unsupported)

lemma client_session_keeps_unsupported:
  "lacks_position_column fetch \<Longrightarrow> supportsPositionColumn cl = Some False \<Longrightarrow>
   supportsPositionColumn (client_session env fetch cl calls) = Some False"
  unfolding client_session_def
  by (induction calls arbitrary: cl) (simp_all add: client_step_keeps_unsupported)

lemma client_session_without_list:
  "ListCall \<notin> set calls \<Longrightarrow> client_session env fetch cl calls = cl"
  unfolding client_session_def
proof (induction calls arbitrary: cl)
  case Nil
  then show ?case by simp
next
  case (Cons call calls)
  then show ?case by (cases call) simp_all
qed

lemma map_from_row_fallback_ids: "map todo_id (map_from k row_fallback rows) = map lr_id rows"
  by (induction rows arbitrary: k) (simp_all add: row_fallback_def)

lemma map_from_row_fallback_positions:
  "map position (map_from k row_fallback rows) = map int [k..<k + length rows]"
  by (induction rows arbitrary: k) (simp_all add: row_fallback_def upt_rec)

lemma lacks_position_column_no_position_store: "lacks_position_column no_position_store"
  by (simp add: lacks_position_column_def no_position_store_def failing_response_def)

lemma lacks_position_column_bare_store: "lacks_position_column bare_store"
  by (simp add: lacks_position_column_def bare_store_def failing_response_def)

lemma listTodos_found:
  assumes "fetch (GetTodos positionedColumns positioned_order) = Fulfilled resp" and "ok resp"
  shows "isPositioningEnabled (fst (listTodos True fetch cl))"
  using assms by (simp add: listTodos_def isPositioningEnabled_def)

text \<open>
  Claim C2, as stated, fails in two ways.  Against a store that has neither of the
  optional columns, the error of the first request names \<^verbatim>\<open>parent_id\<close>, the retry still
  selects \<^verbatim>\<open>position\<close> and fails, and \<^verbatim>\<open>listTodos\<close> rejects with
  \<^verbatim>\<open>isPositioningEnabled\<close> still true.  And the flag is probed again by every
  \<^verbatim>\<open>listTodos\<close>: after a list against a store without the column has switched it off, a
  list that the store answers with the column switches it on again.
\<close>

theorem position_flag_not_sticky:
  "lacks_position_column bare_store \<and>
   snd (listTodos True bare_store initial_client) =
     Rejected ''column todos.position does not exist'' \<and>
   isPositioningEnabled (fst (listTodos True bare_store initial_client)) \<and>
   lacks_position_column no_position_store \<and>
   \<not> isPositioningEnabled (fst (listTodos True no_position_store initial_client)) \<and>
   isPositioningEnabled
     (fst (listTodos True ok_fetch (fst (listTodos True no_position_store initial_client))))"
proof -
  have 1: "snd (listTodos True bare_store initial_client) =
     Rejected ''column todos.position does not exist''" by code_simp
  have 2: "isPositioningEnabled (fst (listTodos True bare_store initial_client))" by code_simp
  have 3: "\<not> isPositioningEnabled (fst (listTodos True no_position_store initial_client))"
    by code_simp
  have 4: "isPositioningEnabled
     (fst (listTodos True ok_fetch (fst (listTodos True no_position_store initial_client))))"
    by code_simp
  show ?thesis
    by (intro conjI lacks_position_column_bare_store 1 2 lacks_position_column_no_position_store 3 4)
qed

text \<open>
  Claim C2, amended.  The first request selects the \<^verbatim>\<open>position\<close> column; when its response is an
  error whose message has the shape of a missing \<^verbatim>\<open>position\<close> column and not that of a
  missing \<^verbatim>\<open>parent_id\<close> column, and the retry without the two columns succeeds,
  \<^verbatim>\<open>listTodos\<close> returns the rows of the retry in their order with the positions
  \<open>0, \<dots>, n - 1\<close>, and \<^verbatim>\<open>isPositioningEnabled\<close> is false afterwards.  It stays false
  through every later sequence of client calls while the store has no such column, and
  no call other than \<^verbatim>\<open>listTodos\<close> ever changes it; a later \<^verbatim>\<open>listTodos\<close> whose first
  request is answered ok makes it true again.
\<close>

theorem list_without_position_column:
  assumes "fetch (GetTodos positionedColumns positioned_order) = Fulfilled withPositionResponse"
    and "\<not> ok withPositionResponse"
    and "\<not> isMissingParentColumn (fallbackReason_of withPositionResponse)"
    and "missingPositionColumn (fallbackReason_of withPositionResponse)"
    and "fetch (GetTodos baseColumns [''created_at.asc'']) = Fulfilled fallbackResponse"
    and "ok fallbackResponse"
  shows "\<not> mentions_position (GetTodos baseColumns [''created_at.asc'']) \<and>
         snd (listTodos True fetch cl) =
           Fulfilled (map_indexed row_fallback (list_json fallbackResponse)) \<and>
         map todo_id (map_indexed row_fallback (list_json fallbackResponse)) =
           map lr_id (list_json fallbackResponse) \<and>
         map position (map_indexed row_fallback (list_json fallbackResponse)) =
           map int [0..<length (list_json fallbackResponse)] \<and>
         \<not> isPositioningEnabled (fst (listTodos True fetch cl)) \<and>
         (lacks_position_column fetch \<longrightarrow>
            (\<forall>calls. \<not> isPositioningEnabled
                        (client_session True fetch (fst (listTodos True fetch cl)) calls))) \<and>
         (\<forall>calls. ListCall \<notin> set calls \<longrightarrow>
            client_session True fetch (fst (listTodos True fetch cl)) calls =
              fst (listTodos True fetch cl)) \<and>
         (\<forall>later resp. later (GetTodos positionedColumns positioned_order) = Fulfilled resp \<and> ok resp \<longrightarrow>
            isPositioningEnabled (fst (listTodos True later (fst (listTodos True fetch cl)))))"
proof -
  have l: "listTodos True fetch cl =
      (cl\<lparr>supportsPositionColumn := Some False, supportsParentColumn := Some False\<rparr>,
       Fulfilled (map_indexed row_fallback (list_json fallbackResponse)))"
    using assms by (simp add: listTodos_def Let_def throwOnError_def)
  have off: "supportsPositionColumn (fst (listTodos True fetch cl)) = Some False"
    by (simp add: l)
  have sticky: "\<not> isPositioningEnabled (client_session True fetch (fst (listTodos True fetch cl)) calls)"
    if "lacks_position_column fetch" for calls
    using client_session_keeps_unsupported[OF that off] by (simp add: isPositioningEnabled_def)
  have ids: "map todo_id (map_indexed row_fallback (list_json fallbackResponse)) =
           map lr_id (list_json fallbackResponse)"
    by (simp add: map_indexed_def map_from_row_fallback_ids)
  have pos: "map position (map_indexed row_fallback (list_json fallbackResponse)) =
           map int [0..<length (list_json fallbackResponse)]"
    by (simp add: map_indexed_def map_from_row_fallback_positions)
  have res: "snd (listTodos True fetch cl) =
           Fulfilled (map_indexed row_fallback (list_json fallbackResponse))"
    by (simp add: l)
  have dis: "\<not> isPositioningEnabled (fst (listTodos True fetch cl))"
    using off by (simp add: isPositioningEnabled_def)
  have again: "\<forall>later resp. later (GetTodos positionedColumns positioned_order) = Fulfilled resp \<and> ok resp \<longrightarrow>
            isPositioningEnabled (fst (listTodos True later (fst (listTodos True fetch cl))))"
    using listTodos_found by blast
  show ?thesis
    using mentions_position_fallback res ids pos dis sticky client_session_without_list again
    by blast
qed

theorem list_without_position_column_witness:
  "no_position_store (GetTodos positionedColumns positioned_order) =
     Fulfilled (failing_response ''column todos.position does not exist'') \<and>
   \<not> ok (failing_response ''column todos.position does not exist'') \<and>
   \<not> isMissingParentColumn (fallbackReason_of (failing_response ''column todos.position does not exist'')) \<and>
   missingPositionColumn (fallbackReason_of (failing_response ''column todos.position does not exist'')) \<and>
   no_position_store (GetTodos baseColumns [''created_at.asc'']) =
     Fulfilled (ok_response\<lparr>list_json := two_rows\<rparr>) \<and>
   ok (ok_response\<lparr>list_json := two_rows\<rparr>) \<and>
   lacks_position_column no_position_store \<and>
   ListCall \<notin> set [DeleteCall ''x''] \<and>
   map todo_id (map_indexed row_fallback two_rows) = [''x'', ''y''] \<and>
   map position (map_indexed row_fallback two_rows) = [0, 1] \<and>
   snd (listTodos True no_position_store initial_client) =
     Fulfilled (map_indexed row_fallback two_rows) \<and>
   \<not> isPositioningEnabled (fst (listTodos True no_position_store initial_client)) \<and>
   \<not> isPositioningEnabled
       (client_session True no_position_store
          (fst (listTodos True no_position_store initial_client)) a_session) \<and>
   client_session True no_position_store
     (fst (listTodos True no_position_store initial_client)) [DeleteCall ''x''] =
     fst (listTodos True no_position_store initial_client) \<and>
   ok_fetch (GetTodos positionedColumns positioned_order) = Fulfilled ok_response \<and>
   ok ok_response \<and>
   isPositioningEnabled
     (fst (listTodos True ok_fetch (fst (listTodos True no_position_store initial_client))))"
proof -
  let ?r1 = "failing_response ''column todos.position does not exist''"
  let ?r3 = "ok_response\<lparr>list_json := two_rows\<rparr>"
  have h1: "no_position_store (GetTodos positionedColumns positioned_order) = Fulfilled ?r1"
    by code_simp
  have h2: "\<not> ok ?r1" by (simp add: failing_response_def)
  have h3: "\<not> isMissingParentColumn (fallbackReason_of ?r1)" by code_simp
  have h4: "missingPositionColumn (fallbackReason_of ?r1)" by code_simp
  have h5: "no_position_store (GetTodos baseColumns [''created_at.asc'']) = Fulfilled ?r3"
    by code_simp
  have h6: "ok ?r3" by (simp add: ok_response_def)
  have h7: "lacks_position_column no_position_store"
    by (rule lacks_position_column_no_position_store)
  have h8: "ListCall \<notin> set [DeleteCall ''x'']" by simp
  have h9: "ok_fetch (GetTodos positionedColumns positioned_order) = Fulfilled ok_response"
    by (simp add: ok_fetch_def)
  have h10: "ok ok_response" by (simp add: ok_response_def)
  note r = list_without_position_column[OF h1 h2 h3 h4 h5 h6, of initial_client]
  have lj: "list_json ?r3 = two_rows" by simp
  have len: "length two_rows = 2" by (simp add: two_rows_def)
  have up: "[0..<2] = [0, Suc 0]" by (simp add: upt_rec)
  have ids: "map lr_id two_rows = [''x'', ''y'']" by (simp add: two_rows_def)
  have c1: "map todo_id (map_indexed row_fallback two_rows) = [''x'', ''y'']"
    using r[THEN conjunct2, THEN conjunct2, THEN conjunct1] unfolding lj ids .
  have c2: "map position (map_indexed row_fallback two_rows) = [0, 1]"
    using r[THEN conjunct2, THEN conjunct2, THEN conjunct2, THEN conjunct1] unfolding lj len
    by (simp add: up)
  have c3: "snd (listTodos True no_position_store initial_client) =
     Fulfilled (map_indexed row_fallback two_rows)"
    using r[THEN conjunct2, THEN conjunct1] unfolding lj .
  have c4: "\<not> isPositioningEnabled (fst (listTodos True no_position_store initial_client))"
    using r by blast
  have c5: "\<not> isPositioningEnabled
       (client_session True no_position_store
          (fst (listTodos True no_position_store initial_client)) a_session)"
    using r h7 by blast
  have c6: "client_session True no_position_store
     (fst (listTodos True no_position_store initial_client)) [DeleteCall ''x''] =
     fst (listTodos True no_position_store initial_client)"
    using r h8 by blast
  have c7: "isPositioningEnabled
     (fst (listTodos True ok_fetch (fst (listTodos True no_position_store initial_client))))"
    using r h9 h10 by blast
  show ?thesis by (intro conjI h1 h2 h3 h4 h5 h6 h7 h8 c1 c2 c3 c4 c5 c6 h9 h10 c7)
qed



section \<open>Moving by one place\<close>

lemma findIndex_hd: "xs \<noteq> [] \<Longrightarrow> findIndex (\<lambda>t. f t = f (hd xs)) xs = 0"
  by (cases xs) simp_all

lemma findIndex_last_distinct:
  assumes "distinct (map f xs)" and "xs \<noteq> []"
  shows "findIndex (\<lambda>t. f t = f (last xs)) xs = int (length xs) - 1"
proof -
  have "length xs - 1 < length xs" using assms(2) by simp
  moreover have "int (length xs - 1) = int (length xs) - 1"
    using assms(2) by (cases xs) simp_all
  ultimately show ?thesis
    using findIndex_nth_distinct[OF assms(1), of "length xs - 1"] assms(2)
    by (simp add: last_conv_nth)
qed

lemma byId_nth_distinct:
  assumes "distinct (map todo_id xs)" and "i < length xs"
  shows "byId xs (todo_id (xs ! i)) = Some (xs ! i)"
proof -
  have "distinct (map fst (map (\<lambda>todo. (todo_id todo, todo)) (rev xs)))"
    using assms(1) by (simp add: comp_def rev_map [symmetric])
  moreover have "(todo_id (xs ! i), xs ! i) \<in> set (map (\<lambda>todo. (todo_id todo, todo)) (rev xs))"
    using assms(2) by auto
  ultimately show ?thesis unfolding byId_def by (rule map_of_is_SomeI)
qed

lemma byId_member_distinct:
  "distinct (map todo_id xs) \<Longrightarrow> x \<in> set xs \<Longrightarrow> byId xs (todo_id x) = Some x"
  by (metis byId_nth_distinct in_set_conv_nth)

lemma byId_Some_member: "byId xs k = Some t \<Longrightarrow> t \<in> set xs \<and> todo_id t = k"
  unfolding byId_def by (drule map_of_SomeD) auto

lemma byId_None_iff: "byId xs k = None \<longleftrightarrow> k \<notin> set (map todo_id xs)"
  by (simp add: byId_def map_of_eq_None_iff image_image)

lemma moveTodoByOffset_first:
  "S \<noteq> [] \<Longrightarrow> moveTodoByOffset updaterRan S (todo_id (hd S)) (- 1) = (S, False)"
  by (simp add: moveTodoByOffset_def moveTodoByOffset_updater_def findIndex_hd)

lemma moveTodoByOffset_last:
  "distinct (map todo_id S) \<Longrightarrow> S \<noteq> [] \<Longrightarrow>
   moveTodoByOffset updaterRan S (todo_id (last S)) 1 = (S, False)"
  by (simp add: moveTodoByOffset_def moveTodoByOffset_updater_def findIndex_last_distinct Let_def)

text \<open>
  The sibling scope of an item: its parent when that is the id of a task of the
  sequence, the top level otherwise.  It is what \<^verbatim>\<open>parentKey\<close> computes.
\<close>

definition sibling_scope :: "TodoRecord list \<Rightarrow> TodoRecord \<Rightarrow> string option" where
  "sibling_scope S t =
     (case parent_id t of
        None \<Rightarrow> None
      | Some p \<Rightarrow> if p \<noteq> [] \<and> p \<in> set (map todo_id S) then Some p else None)"

lemma parentKey_sibling_scope: "parentKey S t = sibling_scope S t"
  by (cases "parent_id t") (auto simp: parentKey_def sibling_scope_def truthy_def byId_None_iff)

lemma filter_first_match:
  assumes "i < length S" and "P (S ! i)" and "\<forall>j<i. \<not> P (S ! j)"
  shows "filter P S = S ! i # filter P (drop (Suc i) S)"
proof -
  have "\<forall>x \<in> set (take i S). \<not> P x"
    using assms(1,3) by (auto simp: in_set_conv_nth)
  then have e: "filter P (take i S) = []" by (simp add: filter_empty_conv)
  have "filter P S = filter P (take i S @ S ! i # drop (Suc i) S)"
    using assms(1) by (simp only: id_take_nth_drop [symmetric])
  also have "\<dots> = S ! i # filter P (drop (Suc i) S)" using e assms(2) by simp
  finally show ?thesis .
qed

lemma filter_last_match:
  assumes "i < length S" and "P (S ! i)" and "\<forall>j<length S. i < j \<longrightarrow> \<not> P (S ! j)"
  shows "filter P S = filter P (take i S) @ [S ! i]"
proof -
  have "\<forall>x \<in> set (drop (Suc i) S). \<not> P x"
  proof
    fix x assume "x \<in> set (drop (Suc i) S)"
    then obtain n where "n < length S - Suc i" and "x = S ! (Suc i + n)"
      by (auto simp: in_set_conv_nth)
    with assms(3) show "\<not> P x" by simp
  qed
  then have e: "filter P (drop (Suc i) S) = []" by (simp add: filter_empty_conv)
  have "filter P S = filter P (take i S @ S ! i # drop (Suc i) S)"
    using assms(1) by (simp only: id_take_nth_drop [symmetric])
  also have "\<dots> = filter P (take i S) @ [S ! i]" using e assms(2) by simp
  finally show ?thesis .
qed

lemma reorderBySiblingMove_no_earlier_sibling:
  assumes d: "distinct (map todo_id S)" and i: "i < length S"
    and first: "\<forall>j<i. sibling_scope S (S ! j) \<noteq> sibling_scope S (S ! i)"
  shows "reorderBySiblingMove S (todo_id (S ! i)) (- 1) = None"
proof -
  let ?P = "\<lambda>item. parentKey S item = parentKey S (S ! i)"
  have b: "byId S (todo_id (S ! i)) = Some (S ! i)" using d i by (rule byId_nth_distinct)
  have "filter ?P S = S ! i # filter ?P (drop (Suc i) S)"
    using i first by (intro filter_first_match) (simp_all add: parentKey_sibling_scope)
  then have "findIndex (\<lambda>item. todo_id item = todo_id (S ! i)) (filter ?P S) = 0"
    by simp
  then show ?thesis using b by (simp add: reorderBySiblingMove_def Let_def)
qed

lemma reorderBySiblingMove_no_later_sibling:
  assumes d: "distinct (map todo_id S)" and i: "i < length S"
    and last: "\<forall>j<length S. i < j \<longrightarrow> sibling_scope S (S ! j) \<noteq> sibling_scope S (S ! i)"
  shows "reorderBySiblingMove S (todo_id (S ! i)) 1 = None"
proof -
  let ?P = "\<lambda>item. parentKey S item = parentKey S (S ! i)"
  let ?sib = "filter ?P S"
  have b: "byId S (todo_id (S ! i)) = Some (S ! i)" using d i by (rule byId_nth_distinct)
  have f: "?sib = filter ?P (take i S) @ [S ! i]"
    using i last by (intro filter_last_match) (simp_all add: parentKey_sibling_scope)
  then have l: "last ?sib = S ! i" and ne: "?sib \<noteq> []" by simp_all
  have "distinct (map todo_id ?sib)" using d by (rule distinct_map_filter)
  from findIndex_last_distinct[OF this ne]
  have "findIndex (\<lambda>item. todo_id item = todo_id (S ! i)) ?sib = int (length ?sib) - 1"
    by (simp only: l)
  then show ?thesis using b ne by (simp add: reorderBySiblingMove_def Let_def)
qed

lemma reorderBySiblingMove_first:
  assumes "distinct (map todo_id S)" and "S \<noteq> []"
  shows "reorderBySiblingMove S (todo_id (hd S)) (- 1) = None"
proof -
  obtain x xs where S: "S = x # xs" using assms(2) by (cases S) auto
  have b: "byId S (todo_id (hd S)) = Some (hd S)"
    using assms by (intro byId_member_distinct) simp_all
  have "findIndex (\<lambda>item. todo_id item = todo_id x)
          (filter (\<lambda>item. parentKey S item = parentKey S x) S) = 0"
    by (simp add: S)
  then show ?thesis using b by (simp add: reorderBySiblingMove_def Let_def S)
qed

lemma last_filter_keep: "xs \<noteq> [] \<Longrightarrow> P (last xs) \<Longrightarrow> last (filter P xs) = last xs"
proof (induction xs rule: rev_induct)
  case Nil
  then show ?case by simp
next
  case (snoc x xs)
  then show ?case by simp
qed

lemma reorderBySiblingMove_last:
  assumes "distinct (map todo_id S)" and "S \<noteq> []"
  shows "reorderBySiblingMove S (todo_id (last S)) 1 = None"
proof -
  let ?sib = "filter (\<lambda>item. parentKey S item = parentKey S (last S)) S"
  have b: "byId S (todo_id (last S)) = Some (last S)"
    using assms by (intro byId_member_distinct) simp_all
  have l: "last ?sib = last S" using assms(2) by (intro last_filter_keep) simp_all
  have ne: "?sib \<noteq> []" using assms(2) last_in_set[OF assms(2)] by (auto simp: filter_empty_conv)
  have "distinct (map todo_id ?sib)" using assms(1) by (rule distinct_map_filter)
  from findIndex_last_distinct[OF this ne]
  have "findIndex (\<lambda>item. todo_id item = todo_id (last S)) ?sib = int (length ?sib) - 1"
    by (simp only: l)
  then show ?thesis using b ne by (simp add: reorderBySiblingMove_def Let_def)
qed

lemma handleMoveActiveTodo_no_neighbour:
  "reorderBySiblingMove (todos st) (the (activeTodoId st)) direction = None \<Longrightarrow>
   handleMoveActiveTodo env a st direction = (st, [])"
  by (simp add: handleMoveActiveTodo_def Let_def)

lemma filter_remove_at:
  "s < length xs \<Longrightarrow> \<not> P (xs ! s) \<Longrightarrow> filter P (take s xs @ drop (Suc s) xs) = filter P xs"
proof -
  assume s: "s < length xs" and n: "\<not> P (xs ! s)"
  have "filter P xs = filter P (take s xs @ xs ! s # drop (Suc s) xs)"
    using s by (simp only: id_take_nth_drop [symmetric])
  also have "\<dots> = filter P (take s xs @ drop (Suc s) xs)" using n by simp
  finally show ?thesis by simp
qed

lemma filter_insert_at:
  "\<not> P x \<Longrightarrow> filter P (take u ys @ x # drop u ys) = filter P ys"
proof -
  assume "\<not> P x"
  then have "filter P (take u ys @ x # drop u ys) = filter P (take u ys) @ filter P (drop u ys)"
    by simp
  also have "\<dots> = filter P (take u ys @ drop u ys)" by (simp only: filter_append)
  also have "\<dots> = filter P ys" by (simp only: append_take_drop_id)
  finally show ?thesis .
qed

lemma filter_arrayMove_nat:
  assumes "a < length xs" and "b < length xs" and "\<not> P (xs ! a)"
  shows "filter P (arrayMove xs (int a) (int b)) = filter P xs"
proof -
  let ?r = "take a xs @ drop (Suc a) xs"
  have "filter P (arrayMove xs (int a) (int b)) = filter P (take b ?r @ xs ! a # drop b ?r)"
    using assms(1,2) by (simp only: arrayMove_nat)
  also have "\<dots> = filter P ?r" using assms(3) by (rule filter_insert_at)
  also have "\<dots> = filter P xs" using assms(1,3) by (rule filter_remove_at)
  finally show ?thesis .
qed

lemma findIndex_found:
  "findIndex P xs \<noteq> - 1 \<Longrightarrow> 0 \<le> findIndex P xs \<and> P (xs ! nat (findIndex P xs))"
proof (induction xs)
  case Nil
  then show ?case by simp
next
  case (Cons x xs)
  show ?case
  proof (cases "P x")
    case True
    then show ?thesis by simp
  next
    case False
    with Cons.prems have f: "findIndex P xs \<noteq> - 1" by (auto simp: Let_def split: if_splits)
    with Cons.IH have "0 \<le> findIndex P xs" and "P (xs ! nat (findIndex P xs))" by auto
    with False f show ?thesis by (simp add: Let_def nat_add_distrib)
  qed
qed

lemma moveTodoByOffset_in_range:
  assumes d: "distinct (map todo_id S)" and i: "i < length S"
    and lo: "0 \<le> int i + offset" and hi: "int i + offset < int (length S)"
  shows "moveTodoByOffset updaterRan S (todo_id (S ! i)) offset =
           (normalizePositions (arrayMove S (int i) (int i + offset)), updaterRan)"
    and "filter (\<lambda>k. k \<noteq> todo_id (S ! i))
           (map todo_id (normalizePositions (arrayMove S (int i) (int i + offset)))) =
         filter (\<lambda>k. k \<noteq> todo_id (S ! i)) (map todo_id S)"
    and "todo_id (normalizePositions (arrayMove S (int i) (int i + offset)) ! nat (int i + offset)) =
         todo_id (S ! i)"
proof -
  have f: "findIndex (\<lambda>todo. todo_id todo = todo_id (S ! i)) S = int i"
    using d i by (rule findIndex_nth_distinct)
  show "moveTodoByOffset updaterRan S (todo_id (S ! i)) offset =
           (normalizePositions (arrayMove S (int i) (int i + offset)), updaterRan)"
    using lo hi by (simp add: moveTodoByOffset_def moveTodoByOffset_updater_def f Let_def)
  define b where "b = nat (int i + offset)"
  have b: "b < length S" "int b = int i + offset" using lo hi by (simp_all add: b_def)
  have "filter (\<lambda>k. k \<noteq> todo_id (S ! i)) (arrayMove (map todo_id S) (int i) (int b)) =
        filter (\<lambda>k. k \<noteq> todo_id (S ! i)) (map todo_id S)"
    using i b(1) by (intro filter_arrayMove_nat) simp_all
  then show "filter (\<lambda>k. k \<noteq> todo_id (S ! i))
           (map todo_id (normalizePositions (arrayMove S (int i) (int i + offset)))) =
         filter (\<lambda>k. k \<noteq> todo_id (S ! i)) (map todo_id S)"
    by (simp add: map_arrayMove b(2))
  have "arrayMove S (int i) (int b) ! b = S ! i"
    using i b(1) by (rule arrayMove_nth_target)
  then show "todo_id (normalizePositions (arrayMove S (int i) (int i + offset)) ! nat (int i + offset)) =
         todo_id (S ! i)"
    using b(1) by (simp add: b(2)[symmetric] b_def[symmetric] nth_normalizePositions)
qed



lemma visit_invariant:
  "distinct (map todo_id ordered) \<Longrightarrow> set ordered \<subseteq> U \<Longrightarrow> set children \<subseteq> U \<Longrightarrow>
   set items \<subseteq> U \<Longrightarrow> set rs \<subseteq> U \<Longrightarrow>
   distinct (map todo_id (visit items ak rs children ordered)) \<and>
   set (visit items ak rs children ordered) \<subseteq> U"
proof (induction items ak rs children ordered rule: visit.induct)
  case (1 items ak rs ordered)
  then show ?case by simp
next
  case (2 items ak rs child rest ordered)
  show ?case
  proof (cases "todo_id child \<in> set (map todo_id ordered)")
    case True
    with 2 show ?thesis by simp
  next
    case False
    let ?inner = "visit items ak rs (childrenOf items ak rs (Some (todo_id child))) (ordered @ [child])"
    have c: "set (childrenOf items ak rs (Some (todo_id child))) \<subseteq> U"
      using "2.prems"(4,5) by (auto simp: childrenOf_def)
    have d: "distinct (map todo_id (ordered @ [child]))" using False "2.prems"(1) by simp
    have s: "set (ordered @ [child]) \<subseteq> U" using "2.prems"(2,3) by simp
    from "2.IH"(2)[OF False d s c "2.prems"(4,5)]
    have i: "distinct (map todo_id ?inner)" "set ?inner \<subseteq> U" by simp_all
    have r: "set rest \<subseteq> U" using "2.prems"(3) by simp
    from "2.IH"(3)[OF False i r "2.prems"(4,5)] False show ?thesis by simp
  qed
qed

lemma set_arrayMove_in_range:
  assumes "0 \<le> i" and "i < int (length xs)" and "0 \<le> j" and "j < int (length xs)"
  shows "set (arrayMove xs i j) = set xs"
proof -
  have "set (arrayMove xs (int (nat i)) (int (nat j))) = set xs"
    using assms by (intro set_arrayMove_nat) simp_all
  then show ?thesis using assms by simp
qed

lemma reorderBySiblingMove_permutes:
  assumes d: "distinct (map todo_id S)" and r: "reorderBySiblingMove S activeId direction = Some result"
  shows "length result = length S \<and> distinct (map todo_id result) \<and>
         set (map todo_id result) = set (map todo_id S) \<and>
         map position result = map int [0..<length S]"
proof -
  from r obtain active where act: "byId S activeId = Some active"
    by (auto simp: reorderBySiblingMove_def split: option.splits)
  define key where "key = parentKey S active"
  define siblings where "siblings = filter (\<lambda>item. parentKey S item = key) S"
  define ci where "ci = findIndex (\<lambda>item. todo_id item = activeId) siblings"
  define ni where "ni = ci + direction"
  define rs where "rs = arrayMove siblings ci ni"
  define ordered where "ordered = visit S key rs (childrenOf S key rs None) []"
  define completed where "completed =
     (if length ordered \<noteq> length S
      then ordered @ filter (\<lambda>item. todo_id item \<notin> set (map todo_id ordered)) S else ordered)"
  from r act have c1: "ci \<noteq> - 1" and n0: "\<not> ni < 0" and n1: "\<not> int (length siblings) \<le> ni"
    and res: "result = normalizePositions completed"
    unfolding reorderBySiblingMove_def Let_def ci_def ni_def siblings_def key_def rs_def
      ordered_def completed_def
    by (auto split: if_splits)
  have c0: "0 \<le> ci" using findIndex_found[of "\<lambda>item. todo_id item = activeId" siblings] c1
    by (simp add: ci_def)
  have c2: "ci < int (length siblings)" unfolding ci_def by (rule findIndex_lt)
  have "set rs = set siblings"
    unfolding rs_def using c0 c2 n0 n1 by (intro set_arrayMove_in_range) simp_all
  then have rsS: "set rs \<subseteq> set S" by (auto simp: siblings_def)
  have chS: "set (childrenOf S key rs None) \<subseteq> set S"
    using rsS by (auto simp: childrenOf_def)
  have inv: "distinct (map todo_id ordered) \<and> set ordered \<subseteq> set S"
    unfolding ordered_def using chS rsS by (intro visit_invariant) simp_all
  have dS: "distinct S" using d by (simp add: distinct_map)
  have same: "x \<in> set ordered" if "x \<in> set S" and "todo_id x \<in> set (map todo_id ordered)" for x
  proof -
    from that(2) obtain y where y: "y \<in> set ordered" "todo_id y = todo_id x" by auto
    with inv have "y \<in> set S" by auto
    with d that(1) y(2) have "y = x" by (meson distinct_map inj_onD)
    with y(1) show ?thesis by simp
  qed
  have dc: "distinct (map todo_id completed)"
  proof (cases "length ordered \<noteq> length S")
    case True
    have "distinct (map todo_id (filter (\<lambda>item. todo_id item \<notin> set (map todo_id ordered)) S))"
      using d by (rule distinct_map_filter)
    moreover have "set (map todo_id ordered) \<inter>
        set (map todo_id (filter (\<lambda>item. todo_id item \<notin> set (map todo_id ordered)) S)) = {}"
      by (auto simp: image_iff)
    ultimately show ?thesis using inv True by (simp add: completed_def)
  next
    case False
    with inv show ?thesis by (simp add: completed_def)
  qed
  have sc: "set completed = set S"
  proof (cases "length ordered \<noteq> length S")
    case True
    then have "completed = ordered @ filter (\<lambda>item. todo_id item \<notin> set (map todo_id ordered)) S"
      by (simp add: completed_def)
    then show ?thesis using inv same by auto
  next
    case False
    then have co: "completed = ordered" by (simp add: completed_def)
    have "distinct ordered" using inv by (simp add: distinct_map)
    then have "card (set ordered) = length ordered" by (rule distinct_card)
    also have "\<dots> = card (set S)" using False dS by (simp add: distinct_card)
    finally have "card (set ordered) = card (set S)" .
    moreover have "set ordered \<subseteq> set S" using inv by simp
    ultimately have "set ordered = set S" by (intro card_subset_eq) simp_all
    then show ?thesis by (simp add: co)
  qed
  have "distinct completed" using dc by (simp add: distinct_map)
  then have "length completed = card (set completed)" by (simp add: distinct_card)
  also have "\<dots> = length S" using sc dS by (simp add: distinct_card)
  finally have len: "length completed = length S" .
  show ?thesis
    using dc sc len by (simp add: res map_position_normalizePositions)
qed

lemma findIndex_append_miss:
  "\<forall>x \<in> set A. \<not> Q x \<Longrightarrow> Q y \<Longrightarrow> findIndex Q (A @ y # B) = int (length A)"
  by (induction A) (simp_all add: Let_def)

lemma sibling_index:
  assumes d: "distinct (map todo_id S)" and i: "i < length S"
  shows "filter (\<lambda>item. parentKey S item = parentKey S (S ! i)) S =
           filter (\<lambda>item. parentKey S item = parentKey S (S ! i)) (take i S) @
           S ! i # filter (\<lambda>item. parentKey S item = parentKey S (S ! i)) (drop (Suc i) S)"
    and "findIndex (\<lambda>item. todo_id item = todo_id (S ! i))
           (filter (\<lambda>item. parentKey S item = parentKey S (S ! i)) S) =
         int (length (filter (\<lambda>item. parentKey S item = parentKey S (S ! i)) (take i S)))"
proof -
  let ?P = "\<lambda>item. parentKey S item = parentKey S (S ! i)"
  have "filter ?P S = filter ?P (take i S @ S ! i # drop (Suc i) S)"
    using i by (simp only: id_take_nth_drop [symmetric])
  then show split: "filter ?P S = filter ?P (take i S) @ S ! i # filter ?P (drop (Suc i) S)"
    by simp
  have "\<forall>x \<in> set (filter ?P (take i S)). todo_id x \<noteq> todo_id (S ! i)"
  proof
    fix x assume "x \<in> set (filter ?P (take i S))"
    then have "x \<in> set (take i S)" by simp
    then obtain n where n: "n < i" and x: "x = S ! n" using i by (auto simp: in_set_conv_nth)
    have "map todo_id S ! n \<noteq> map todo_id S ! i"
      using d n i by (simp add: nth_eq_iff_index_eq del: nth_map)
    then show "todo_id x \<noteq> todo_id (S ! i)" using n i x by simp
  qed
  then show "findIndex (\<lambda>item. todo_id item = todo_id (S ! i)) (filter ?P S) =
         int (length (filter ?P (take i S)))"
    unfolding split by (intro findIndex_append_miss) simp_all
qed

lemma reorderBySiblingMove_moves:
  assumes d: "distinct (map todo_id S)" and i: "i < length S" and j: "j < length S"
    and same: "sibling_scope S (S ! j) = sibling_scope S (S ! i)"
  shows "j < i \<Longrightarrow> \<exists>result. reorderBySiblingMove S (todo_id (S ! i)) (- 1) = Some result"
    and "i < j \<Longrightarrow> \<exists>result. reorderBySiblingMove S (todo_id (S ! i)) 1 = Some result"
proof -
  let ?P = "\<lambda>item. parentKey S item = parentKey S (S ! i)"
  have b: "byId S (todo_id (S ! i)) = Some (S ! i)" using d i by (rule byId_nth_distinct)
  note sp = sibling_index[OF d i]
  have pj: "?P (S ! j)" using same by (simp add: parentKey_sibling_scope)
  have len: "length (filter ?P S) =
      length (filter ?P (take i S)) + 1 + length (filter ?P (drop (Suc i) S))"
    by (subst sp(1)) simp
  {
    assume "j < i"
    then have "S ! j \<in> set (take i S)" using i by (auto simp: in_set_conv_nth)
    with pj have "filter ?P (take i S) \<noteq> []" by (auto simp: filter_empty_conv)
    then have "0 < length (filter ?P (take i S))" by simp
    then show "\<exists>result. reorderBySiblingMove S (todo_id (S ! i)) (- 1) = Some result"
      using b len by (simp add: reorderBySiblingMove_def Let_def sp(2))
  }
  {
    assume "i < j"
    then have "S ! j \<in> set (drop (Suc i) S)"
      using j by (auto simp: in_set_conv_nth intro!: exI[of _ "j - Suc i"])
    with pj have "filter ?P (drop (Suc i) S) \<noteq> []" by (auto simp: filter_empty_conv)
    then have "0 < length (filter ?P (drop (Suc i) S))" by simp
    then show "\<exists>result. reorderBySiblingMove S (todo_id (S ! i)) 1 = Some result"
      using b len by (simp add: reorderBySiblingMove_def Let_def sp(2))
  }
qed

lemma handleMoveActiveTodo_None:
  assumes "todos st = S" and "activeTodoId st = Some activeId"
    and "reorderBySiblingMove S activeId direction = None"
  shows "handleMoveActiveTodo env a st direction = (st, [])"
  using assms by (simp add: handleMoveActiveTodo_def Let_def)






section \<open>Depth\<close>

declare depth_walk.simps [simp del]
declare getDepth.simps [simp del]

lemma card_unseen_decreases:
  assumes "k \<in> set (map todo_id items)" and "k \<notin> set seen"
  shows "card (set (map todo_id items) - set (k # seen)) < card (set (map todo_id items) - set seen)"
  using assms by (intro psubset_card_mono) auto

lemma card_unseen_le_length: "card (set (map todo_id items) - set seen) \<le> length items"
proof -
  have "card (set (map todo_id items) - set seen) \<le> card (set (map todo_id items))"
    by (intro card_mono) auto
  also have "\<dots> \<le> length (map todo_id items)" by (rule card_length)
  finally show ?thesis by simp
qed

lemma depth_walk_bound:
  "depth_walk items current seen depth \<le> depth + card (set (map todo_id items) - set seen)"
proof (induction items current seen depth rule: depth_walk.induct)
  case (1 items current seen depth)
  show ?case
  proof (cases current)
    case None
    then show ?thesis by (subst depth_walk.simps) simp
  next
    case (Some c)
    show ?thesis
    proof (cases "truthy (parent_id c) \<and> byId items (the (parent_id c)) \<noteq> None")
      case False
      with Some show ?thesis by (subst depth_walk.simps) auto
    next
      case True
      show ?thesis
      proof (cases "the (parent_id c) \<in> set seen")
        case seen: True
        with Some True show ?thesis by (subst depth_walk.simps) simp
      next
        case fresh: False
        from True obtain p where "byId items (the (parent_id c)) = Some p" by auto
        then have "the (parent_id c) \<in> set (map todo_id items)" by (rule byId_in_ids)
        from card_unseen_decreases[OF this fresh]
        have lt: "card (set (map todo_id items) - set (the (parent_id c) # seen))
                  < card (set (map todo_id items) - set seen)" .
        from "1.IH"[OF Some True fresh]
        have "depth_walk items (byId items (the (parent_id c))) (the (parent_id c) # seen) (depth + 1)
              \<le> depth + 1 + card (set (map todo_id items) - set (the (parent_id c) # seen))" .
        with lt have "depth_walk items (byId items (the (parent_id c))) (the (parent_id c) # seen) (depth + 1)
              \<le> depth + card (set (map todo_id items) - set seen)" by linarith
        moreover have "depth_walk items current seen depth =
            depth_walk items (byId items (the (parent_id c))) (the (parent_id c) # seen) (depth + 1)"
          using Some True fresh by (subst depth_walk.simps) simp
        ultimately show ?thesis by simp
      qed
    qed
  qed
qed

lemma depth_walk_root: "\<not> truthy (parent_id c) \<Longrightarrow> depth_walk items (Some c) seen depth = depth"
  by (subst depth_walk.simps) simp

text \<open>The value that \<^verbatim>\<open>depthFor\<close> computes for an id when it is not yet in the memo.\<close>

definition depth_of :: "TodoRecord list \<Rightarrow> string \<Rightarrow> nat" where
  "depth_of items todoId =
     (let walked = depth_walk items (byId items todoId) [] 0;
          depth = (if walked = 0 \<and>
                      (case byId items todoId of None \<Rightarrow> False | Some t \<Rightarrow> truthy (parent_id t))
                   then 1 else walked)
      in min depth 8)"

definition memo_ok :: "TodoRecord list \<Rightarrow> (string \<rightharpoonup> nat) \<Rightarrow> bool" where
  "memo_ok items memo = (\<forall>k d. memo k = Some d \<longrightarrow> d = depth_of items k)"

lemma depthFor_memo_ok:
  assumes "memo_ok items memo"
  shows "fst (depthFor items memo k) = depth_of items k \<and> memo_ok items (snd (depthFor items memo k))"
proof (cases "memo k")
  case None
  then show ?thesis using assms
    by (auto simp: depthFor_def depth_of_def memo_ok_def Let_def)
next
  case (Some d)
  with assms have "d = depth_of items k" by (simp add: memo_ok_def)
  with Some assms show ?thesis by (simp add: depthFor_def)
qed

definition depth_step ::
  "TodoRecord list \<Rightarrow> TodoRecord \<Rightarrow> (string \<rightharpoonup> nat) \<times> (string \<rightharpoonup> nat) \<Rightarrow>
   (string \<rightharpoonup> nat) \<times> (string \<rightharpoonup> nat)" where
  "depth_step items = (\<lambda>todo (result, memo).
                  (case depthFor items memo (todo_id todo) of
                     (d, memo') \<Rightarrow> (result(todo_id todo \<mapsto> d), memo')))"

lemma depth_step_eq:
  "depth_step items x (result, memo) =
     (result(todo_id x \<mapsto> fst (depthFor items memo (todo_id x))),
      snd (depthFor items memo (todo_id x)))"
  by (simp add: depth_step_def split: prod.splits)

lemma depthByTodoId_fold:
  assumes "memo_ok items memo" and "\<forall>k d. result k = Some d \<longrightarrow> d = depth_of items k"
  shows "\<forall>k d. fst (fold (depth_step items) xs (result, memo)) k = Some d \<longrightarrow> d = depth_of items k"
  using assms
proof (induction xs arbitrary: result memo)
  case Nil
  then show ?case by simp
next
  case (Cons x xs)
  from depthFor_memo_ok[OF Cons.prems(1), of "todo_id x"]
  have d: "fst (depthFor items memo (todo_id x)) = depth_of items (todo_id x)"
    and m: "memo_ok items (snd (depthFor items memo (todo_id x)))" by simp_all
  have r: "\<forall>k e. (result(todo_id x \<mapsto> fst (depthFor items memo (todo_id x)))) k = Some e
             \<longrightarrow> e = depth_of items k"
    using Cons.prems(2) d by auto
  from Cons.IH[OF m r] show ?case by (simp only: fold_Cons comp_apply depth_step_eq)
qed

lemma depthByTodoId_dom_fold:
  "dom (fst (fold (depth_step items) xs (result, memo))) = dom result \<union> set (map todo_id xs)"
proof (induction xs arbitrary: result memo)
  case Nil
  then show ?case by simp
next
  case (Cons x xs)
  have "dom (fst (fold (depth_step items) (x # xs) (result, memo))) =
        dom (result(todo_id x \<mapsto> fst (depthFor items memo (todo_id x)))) \<union> set (map todo_id xs)"
    by (simp only: fold_Cons comp_apply depth_step_eq Cons.IH)
  then show ?case by simp
qed

lemma depthByTodoId_eq:
  "k \<in> set (map todo_id items) \<Longrightarrow> depthByTodoId items k = Some (depth_of items k)"
proof -
  assume k: "k \<in> set (map todo_id items)"
  have f: "depthByTodoId items = fst (fold (depth_step items) items (Map.empty, Map.empty))"
    by (simp add: depthByTodoId_def depth_step_def)
  have "dom (depthByTodoId items) = set (map todo_id items)"
    unfolding f by (simp add: depthByTodoId_dom_fold)
  with k obtain d where d: "depthByTodoId items k = Some d" by auto
  have "memo_ok items Map.empty" by (simp add: memo_ok_def)
  from depthByTodoId_fold[OF this, of Map.empty items]
  have "\<forall>k d. depthByTodoId items k = Some d \<longrightarrow> d = depth_of items k"
    unfolding f by simp
  with d show ?thesis by simp
qed

lemma depth_of_root:
  "byId items k = Some t \<Longrightarrow> \<not> truthy (parent_id t) \<Longrightarrow> depth_of items k = 0"
  by (simp add: depth_of_def depth_walk_root)



lemma getDepth_cached: "cache k = Some d \<Longrightarrow> getDepth items cache k seen = (d, cache, 0)"
  by (subst getDepth.simps) simp

lemma getDepth_stop:
  assumes "cache k = None"
    and "byId items k = None \<or>
         (\<exists>item. byId items k = Some item \<and>
            (\<not> truthy (parent_id item) \<or> k \<in> set seen \<or> byId items (the (parent_id item)) = None))"
  shows "getDepth items cache k seen = (0, cache(k \<mapsto> 0), 0)"
  using assms by (subst getDepth.simps) auto

lemma getDepth_rec:
  assumes "cache k = None" and "byId items k = Some item" and "truthy (parent_id item)"
    and "k \<notin> set seen" and "byId items (the (parent_id item)) \<noteq> None"
  shows "getDepth items cache k seen =
           (fst (getDepth items cache (the (parent_id item)) (k # seen)) + 1,
            (fst (snd (getDepth items cache (the (parent_id item)) (k # seen))))
              (k \<mapsto> fst (getDepth items cache (the (parent_id item)) (k # seen)) + 1),
            snd (snd (getDepth items cache (the (parent_id item)) (k # seen))) + 1)"
  using assms by (subst getDepth.simps) (simp split: prod.splits)

lemma getDepth_cases:
  obtains (cached) d where "cache k = Some d"
  | (stop) "cache k = None"
      "byId items k = None \<or>
         (\<exists>item. byId items k = Some item \<and>
            (\<not> truthy (parent_id item) \<or> k \<in> set seen \<or> byId items (the (parent_id item)) = None))"
  | (rec) item where "cache k = None" "byId items k = Some item" "truthy (parent_id item)"
      "k \<notin> set seen" "byId items (the (parent_id item)) \<noteq> None"
  by (cases "cache k"; cases "byId items k") auto

lemma getDepth_walks_bound:
  "snd (snd (getDepth items cache k seen)) \<le> card (set (map todo_id items) - set seen)"
proof (induction items cache k seen rule: getDepth.induct)
  case (1 items cache k seen)
  show ?case
  proof (cases rule: getDepth_cases[where cache=cache and k=k and items=items and seen=seen])
    case (cached d)
    then show ?thesis by (simp add: getDepth_cached)
  next
    case stop
    then show ?thesis by (simp add: getDepth_stop)
  next
    case (rec item)
    have "k \<in> set (map todo_id items)" using rec(2) by (rule byId_in_ids)
    from card_unseen_decreases[OF this rec(4)]
    have lt: "card (set (map todo_id items) - set (k # seen)) < card (set (map todo_id items) - set seen)" .
    have "snd (snd (getDepth items cache (the (parent_id item)) (k # seen)))
          \<le> card (set (map todo_id items) - set (k # seen))"
      using rec by (intro "1.IH") auto
    with lt show ?thesis by (simp add: getDepth_rec[where cache=cache and k=k and items=items and seen=seen, OF rec])
  qed
qed

text \<open>An id whose task is missing or has no parent, and a cache that gives such ids the depth \<open>0\<close>.\<close>

definition zero_at :: "TodoRecord list \<Rightarrow> string \<Rightarrow> bool" where
  "zero_at items k = (case byId items k of None \<Rightarrow> True | Some t \<Rightarrow> \<not> truthy (parent_id t))"

definition cache_ok :: "TodoRecord list \<Rightarrow> (string \<rightharpoonup> nat) \<Rightarrow> bool" where
  "cache_ok items cache = (\<forall>k d. cache k = Some d \<longrightarrow> zero_at items k \<longrightarrow> d = 0)"

lemma getDepth_cache_ok:
  "cache_ok items cache \<Longrightarrow>
   cache_ok items (fst (snd (getDepth items cache k seen))) \<and>
   (zero_at items k \<longrightarrow> fst (getDepth items cache k seen) = 0)"
proof (induction items cache k seen rule: getDepth.induct)
  case (1 items cache k seen)
  show ?case
  proof (cases rule: getDepth_cases[where cache=cache and k=k and items=items and seen=seen])
    case (cached d)
    with "1.prems" show ?thesis by (auto simp: getDepth_cached cache_ok_def)
  next
    case stop
    with "1.prems" show ?thesis by (auto simp: getDepth_stop cache_ok_def)
  next
    case (rec item)
    have "cache_ok items (fst (snd (getDepth items cache (the (parent_id item)) (k # seen))))"
      using rec "1.prems" by (intro "1.IH"[THEN conjunct1]) auto
    moreover have "\<not> zero_at items k" using rec(2,3) by (simp add: zero_at_def)
    ultimately show ?thesis by (auto simp: getDepth_rec[where cache=cache and k=k and items=items and seen=seen, OF rec] cache_ok_def)
  qed
qed

definition build_step ::
  "TodoRecord list \<Rightarrow> TodoRecord \<Rightarrow> (string \<rightharpoonup> nat) \<times> (string \<rightharpoonup> nat) \<Rightarrow>
   (string \<rightharpoonup> nat) \<times> (string \<rightharpoonup> nat)" where
  "build_step items = (\<lambda>item (depths, cache).
                  (case getDepth items cache (todo_id item) [] of
                     (d, cache', walks) \<Rightarrow> (depths(todo_id item \<mapsto> d), cache')))"

lemma build_step_eq:
  "build_step items x (depths, cache) =
     (depths(todo_id x \<mapsto> fst (getDepth items cache (todo_id x) [])),
      fst (snd (getDepth items cache (todo_id x) [])))"
  by (simp add: build_step_def split: prod.splits)

lemma buildDepthMap_fold:
  assumes "cache_ok items cache" and "cache_ok items depths"
  shows "cache_ok items (fst (fold (build_step items) xs (depths, cache)))"
  using assms
proof (induction xs arbitrary: depths cache)
  case Nil
  then show ?case by simp
next
  case (Cons x xs)
  from getDepth_cache_ok[OF Cons.prems(1), of "todo_id x" "[]"]
  have c: "cache_ok items (fst (snd (getDepth items cache (todo_id x) [])))"
    and z: "zero_at items (todo_id x) \<longrightarrow> fst (getDepth items cache (todo_id x) []) = 0"
    by simp_all
  have d: "cache_ok items (depths(todo_id x \<mapsto> fst (getDepth items cache (todo_id x) [])))"
    using Cons.prems(2) z by (auto simp: cache_ok_def)
  from Cons.IH[OF c d] show ?case by (simp only: fold_Cons comp_apply build_step_eq)
qed

lemma buildDepthMap_dom_fold:
  "dom (fst (fold (build_step items) xs (depths, cache))) = dom depths \<union> set (map todo_id xs)"
proof (induction xs arbitrary: depths cache)
  case Nil
  then show ?case by simp
next
  case (Cons x xs)
  have "dom (fst (fold (build_step items) (x # xs) (depths, cache))) =
        dom (depths(todo_id x \<mapsto> fst (getDepth items cache (todo_id x) []))) \<union> set (map todo_id xs)"
    by (simp only: fold_Cons comp_apply build_step_eq Cons.IH)
  then show ?case by simp
qed

lemma buildDepthMap_root:
  assumes "k \<in> set (map todo_id items)" and "zero_at items k"
  shows "buildDepthMap items k = Some 0"
proof -
  have f: "buildDepthMap items = fst (fold (build_step items) items (Map.empty, Map.empty))"
    by (simp add: buildDepthMap_def build_step_def)
  have "dom (buildDepthMap items) = set (map todo_id items)"
    unfolding f by (simp add: buildDepthMap_dom_fold)
  with assms(1) obtain d where d: "buildDepthMap items k = Some d" by auto
  have e: "cache_ok items Map.empty" by (simp add: cache_ok_def)
  from buildDepthMap_fold[OF e e, of items]
  have "cache_ok items (buildDepthMap items)" unfolding f .
  with d assms(2) show ?thesis by (simp add: cache_ok_def)
qed

text \<open>
  Claim C6.  Both depth computations are total functions (their termination is proved
  where they are defined).  The loop of \<^verbatim>\<open>depthFor\<close> follows at most as many parent links
  as the collection has items, and so does every call of \<^verbatim>\<open>getDepth\<close>, from any cache
  and any set of seen ids, whatever the parent references are; and in a collection with
  distinct ids both depth maps give \<open>0\<close> to every item whose parent is null.
\<close>

theorem depth_bounded_and_zero_at_roots:
  "depth_walk items (byId items k) [] 0 \<le> length items \<and>
   snd (snd (getDepth items cache k seen)) \<le> length items \<and>
   (distinct (map todo_id items) \<longrightarrow>
      (\<forall>item \<in> set items. parent_id item = None \<longrightarrow>
         depthByTodoId items (todo_id item) = Some 0 \<and>
         buildDepthMap items (todo_id item) = Some 0))"
proof (intro conjI impI ballI)
  have "depth_walk items (byId items k) [] 0 \<le> 0 + card (set (map todo_id items) - set [])"
    by (rule depth_walk_bound)
  also have "\<dots> \<le> length items" using card_unseen_le_length[of items "[]"] by simp
  finally show "depth_walk items (byId items k) [] 0 \<le> length items" .
next
  have "snd (snd (getDepth items cache k seen)) \<le> card (set (map todo_id items) - set seen)"
    by (rule getDepth_walks_bound)
  also have "\<dots> \<le> length items" by (rule card_unseen_le_length)
  finally show "snd (snd (getDepth items cache k seen)) \<le> length items" .
next
  fix item
  assume d: "distinct (map todo_id items)" and i: "item \<in> set items" and p: "parent_id item = None"
  have b: "byId items (todo_id item) = Some item" using d i by (rule byId_member_distinct)
  have n: "\<not> truthy (parent_id item)" using p by (simp add: truthy_def)
  have m: "todo_id item \<in> set (map todo_id items)" using i by simp
  show "depthByTodoId items (todo_id item) = Some 0"
    using depthByTodoId_eq[OF m] depth_of_root[OF b n] by simp
  show "buildDepthMap items (todo_id item) = Some 0"
    using m b n by (intro buildDepthMap_root) (simp_all add: zero_at_def)
qed

theorem depth_bounded_and_zero_at_roots_witness:
  "distinct (map todo_id cyclic_tasks) \<and> task ''c'' None \<in> set cyclic_tasks \<and>
   parent_id (task ''c'' None) = None \<and>
   depth_walk cyclic_tasks (byId cyclic_tasks ''a'') [] 0 = 2 \<and>
   depth_walk cyclic_tasks (byId cyclic_tasks ''a'') [] 0 \<le> length cyclic_tasks \<and>
   snd (snd (getDepth cyclic_tasks Map.empty ''a'' [])) = 2 \<and>
   snd (snd (getDepth cyclic_tasks Map.empty ''a'' [])) \<le> length cyclic_tasks \<and>
   depthByTodoId cyclic_tasks ''c'' = Some 0 \<and> buildDepthMap cyclic_tasks ''c'' = Some 0"
proof -
  have h1: "distinct (map todo_id cyclic_tasks)" and h2: "task ''c'' None \<in> set cyclic_tasks"
    and h3: "parent_id (task ''c'' None) = None"
    by (simp_all add: cyclic_tasks_def task_def)
  have w1: "depth_walk cyclic_tasks (byId cyclic_tasks ''a'') [] 0 = 2" by code_simp
  have w2: "snd (snd (getDepth cyclic_tasks Map.empty ''a'' [])) = 2" by code_simp
  note r = depth_bounded_and_zero_at_roots[of cyclic_tasks "''a''" Map.empty "[]"]
  have c1: "depth_walk cyclic_tasks (byId cyclic_tasks ''a'') [] 0 \<le> length cyclic_tasks"
    and c2: "snd (snd (getDepth cyclic_tasks Map.empty ''a'' [])) \<le> length cyclic_tasks"
    using r by blast+
  have i: "todo_id (task ''c'' None) = ''c''" by (simp add: task_def)
  from r h1 h2 h3 have "depthByTodoId cyclic_tasks (todo_id (task ''c'' None)) = Some 0 \<and>
      buildDepthMap cyclic_tasks (todo_id (task ''c'' None)) = Some 0" by blast
  then have c3: "depthByTodoId cyclic_tasks ''c'' = Some 0 \<and> buildDepthMap cyclic_tasks ''c'' = Some 0"
    unfolding i .
  show ?thesis using h1 h2 h3 w1 c1 w2 c2 c3 by blast
qed



section \<open>Nesting and unnesting one task\<close>

lemma todo_id_nth_same:
  "map todo_id ys = map todo_id xs \<Longrightarrow> j < length xs \<Longrightarrow> todo_id (ys ! j) = todo_id (xs ! j)"
  by (metis length_map nth_map)

lemma filter_same_id_distinct:
  assumes "distinct (map f xs)" and "k < length xs"
  shows "filter (\<lambda>t. f t = f (xs ! k)) xs = [xs ! k]"
  using assms
proof (induction xs arbitrary: k)
  case Nil
  then show ?case by simp
next
  case (Cons x xs)
  show ?case
  proof (cases k)
    case 0
    from Cons.prems(1) have "\<forall>t \<in> set xs. f t \<noteq> f x" by (auto simp: image_iff)
    then have "filter (\<lambda>t. f t = f x) xs = []" by (simp add: filter_empty_conv)
    with 0 show ?thesis by simp
  next
    case (Suc j)
    with Cons.prems have j: "j < length xs" and d: "distinct (map f xs)" by auto
    from Cons.prems(1) nth_mem[OF j] have "f x \<noteq> f (xs ! j)" by auto
    with Cons.IH[OF d j] Suc show ?thesis by simp
  qed
qed

lemma filter_other_id_distinct:
  assumes "distinct (map f xs)" and "k < length xs"
  shows "filter (\<lambda>t. f t \<noteq> f (xs ! k)) xs = take k xs @ drop (Suc k) xs"
  using assms
proof (induction xs arbitrary: k)
  case Nil
  then show ?case by simp
next
  case (Cons x xs)
  show ?case
  proof (cases k)
    case 0
    from Cons.prems(1) have "\<forall>t \<in> set xs. f t \<noteq> f x" by (auto simp: image_iff)
    then have "filter (\<lambda>t. f t \<noteq> f x) xs = xs" by (simp add: filter_id_conv)
    with 0 show ?thesis by simp
  next
    case (Suc j)
    with Cons.prems have j: "j < length xs" and d: "distinct (map f xs)" by auto
    from Cons.prems(1) nth_mem[OF j] have "f x \<noteq> f (xs ! j)" by auto
    with Cons.IH[OF d j] Suc show ?thesis by simp
  qed
qed

lemma map_update_id_distinct:
  assumes "distinct (map f xs)" and "k < length xs"
  shows "map (\<lambda>t. if f t = f (xs ! k) then h t else t) xs = xs[k := h (xs ! k)]"
proof (rule nth_equalityI)
  show "length (map (\<lambda>t. if f t = f (xs ! k) then h t else t) xs) = length (xs[k := h (xs ! k)])"
    by simp
next
  fix i assume "i < length (map (\<lambda>t. if f t = f (xs ! k) then h t else t) xs)"
  then have i: "i < length xs" by simp
  have "f (xs ! i) = f (xs ! k) \<longleftrightarrow> i = k"
    using assms i by (metis distinct_conv_nth length_map nth_map)
  then show "map (\<lambda>t. if f t = f (xs ! k) then h t else t) xs ! i = xs[k := h (xs ! k)] ! i"
    using i by (simp add: nth_list_update)
qed

lemma compactSelectionAtAnchor_single:
  assumes "distinct (map todo_id S)" and "k < length S"
  shows "compactSelectionAtAnchor S [] (todo_id (S ! k)) = Some (S, [S ! k], int k)"
proof -
  have b: "select_block S [] (todo_id (S ! k)) = [S ! k]"
    using assms by (simp add: select_block_def filter_same_id_distinct)
  have f: "findIndex (\<lambda>todo. todo_id todo = todo_id (S ! k)) S = int k"
    using assms by (rule findIndex_nth_distinct)
  have st: "filter (\<lambda>todo. todo_id todo \<noteq> todo_id (S ! k)) S = take k S @ drop (Suc k) S"
    using assms by (rule filter_other_id_distinct)
  have l: "length (take k S @ drop (Suc k) S) = length S - 1"
    using assms(2) by (rule length_remove_at)
  have u: "splice_start (length S - 1) (int k) = k" using assms(2) by (simp add: splice_start_def)
  have "splice_insert (take k S @ drop (Suc k) S) (int k) [S ! k] =
        take k (take k S @ drop (Suc k) S) @ [S ! k] @ drop k (take k S @ drop (Suc k) S)"
    by (simp only: splice_insert_def Let_def l u)
  also have "\<dots> = take k S @ S ! k # drop (Suc k) S" using assms(2) by simp
  also have "\<dots> = S" using assms(2) by (rule id_take_nth_drop [symmetric])
  finally have sp: "splice_insert (take k S @ drop (Suc k) S) (int k) [S ! k] = S" .
  show ?thesis
    by (simp add: compactSelectionAtAnchor_def b f st sp Let_def)
qed

lemma list_ex_map_from:
  "list_ex (\<lambda>b. b) (map_from j f xs) \<longleftrightarrow> (\<exists>i < length xs. f (xs ! i) (j + i))"
proof (induction xs arbitrary: j)
  case Nil
  then show ?case by simp
next
  case (Cons x xs)
  have "(\<exists>i < length (x # xs). f ((x # xs) ! i) (j + i)) \<longleftrightarrow>
        f x j \<or> (\<exists>i < length xs. f (xs ! i) (Suc j + i))"
    by (auto simp: less_Suc_eq_0_disj)
  with Cons.IH[of "Suc j"] show ?case by simp
qed

lemma rows_differ_iff:
  "rows_differ next snapshot \<longleftrightarrow>
   (\<exists>i < length next. length snapshot \<le> i \<or> todo_id (next ! i) \<noteq> todo_id (snapshot ! i) \<or>
                       parent_id (next ! i) \<noteq> parent_id (snapshot ! i))"
  by (simp add: rows_differ_def map_indexed_def list_ex_map_from)

lemma todo_id_nth_normalizePositions [simp]:
  "i < length xs \<Longrightarrow> todo_id (normalizePositions xs ! i) = todo_id (xs ! i)"
  by (simp add: nth_normalizePositions)

lemma parent_id_nth_normalizePositions [simp]:
  "i < length xs \<Longrightarrow> parent_id (normalizePositions xs ! i) = parent_id (xs ! i)"
  by (simp add: nth_normalizePositions)

lemma rows_differ_reparent:
  assumes "k < length S"
  shows "rows_differ (normalizePositions (S[k := (S ! k)\<lparr>parent_id := N\<rparr>])) S \<longleftrightarrow>
         parent_id (S ! k) \<noteq> N"
proof
  let ?next = "normalizePositions (S[k := (S ! k)\<lparr>parent_id := N\<rparr>])"
  assume "rows_differ ?next S"
  then obtain i where i: "i < length S"
    and "todo_id (?next ! i) \<noteq> todo_id (S ! i) \<or> parent_id (?next ! i) \<noteq> parent_id (S ! i)"
    by (auto simp: rows_differ_iff)
  then show "parent_id (S ! k) \<noteq> N"
    by (cases "i = k") (auto simp: nth_list_update)
next
  let ?next = "normalizePositions (S[k := (S ! k)\<lparr>parent_id := N\<rparr>])"
  assume "parent_id (S ! k) \<noteq> N"
  then have "parent_id (?next ! k) \<noteq> parent_id (S ! k)" using assms by simp
  with assms show "rows_differ ?next S" unfolding rows_differ_iff by auto
qed

lemma update_parents_accepted:
  "\<forall>ident p. \<exists>t. api_updateTodo a ident p = Fulfilled t \<Longrightarrow> \<exists>us. update_parents a updates = Fulfilled us"
  unfolding update_parents_def
  by (rule promise_all_fulfils) (auto split: prod.splits)

lemma persistCurrentOrder_fields:
  "todos (fst (persistCurrentOrder a st)) = todos st \<and>
   latestTodosRef (fst (persistCurrentOrder a st)) = latestTodosRef st \<and>
   selectedTodoIds (fst (persistCurrentOrder a st)) = selectedTodoIds st \<and>
   busyId (fst (persistCurrentOrder a st)) = busyId st \<and>
   editingId (fst (persistCurrentOrder a st)) = editingId st"
  by (simp add: persistCurrentOrder_def Let_def split: outcome.splits)



lemma reparent_block_single:
  assumes "distinct (map todo_id S)" and "k < length S"
  shows "map (\<lambda>todo. if todo_id todo \<notin> set (map todo_id [S ! k]) then todo
                      else todo\<lparr>parent_id := N\<rparr>) S = S[k := (S ! k)\<lparr>parent_id := N\<rparr>]"
proof -
  have "map (\<lambda>todo. if todo_id todo \<notin> set (map todo_id [S ! k]) then todo
                      else todo\<lparr>parent_id := N\<rparr>) S =
        map (\<lambda>t. if todo_id t = todo_id (S ! k) then t\<lparr>parent_id := N\<rparr> else t) S"
    by (rule map_cong) auto
  also have "\<dots> = S[k := (S ! k)\<lparr>parent_id := N\<rparr>]"
    using assms by (rule map_update_id_distinct)
  finally show ?thesis .
qed

text \<open>
  Nesting the single task at index \<open>k\<close>, with nothing selected: \<open>N\<close> is the parent the
  handler chooses for it.
\<close>

lemma nest_single:
  assumes d: "distinct (map todo_id S)" and k0: "0 < k" and k: "k < length S"
    and N: "N = (if truthy (parent_id (S ! (k - 1)))
                 then (if parent_id (S ! k) = parent_id (S ! (k - 1))
                       then Some (todo_id (S ! (k - 1))) else parent_id (S ! (k - 1)))
                 else Some (todo_id (S ! (k - 1))))"
    and ref: "latestTodosRef st = S" and sel: "selectedTodoIds st = []"
    and busy: "\<not> truthy (busyId st)" and edit: "\<not> truthy (editingId st)"
    and acc: "\<forall>ident p. \<exists>t. api_updateTodo a ident p = Fulfilled t"
  shows "(parent_id (S ! k) = N \<longrightarrow>
            nestFocusedSelectionIntoPrevious True a st (todo_id (S ! k)) = (st, [])) \<and>
         (parent_id (S ! k) \<noteq> N \<longrightarrow>
            todos (fst (nestFocusedSelectionIntoPrevious True a st (todo_id (S ! k)))) =
              normalizePositions (S[k := (S ! k)\<lparr>parent_id := N\<rparr>]) \<and>
            latestTodosRef (fst (nestFocusedSelectionIntoPrevious True a st (todo_id (S ! k)))) =
              normalizePositions (S[k := (S ! k)\<lparr>parent_id := N\<rparr>]) \<and>
            selectedTodoIds (fst (nestFocusedSelectionIntoPrevious True a st (todo_id (S ! k)))) = [] \<and>
            busyId (fst (nestFocusedSelectionIntoPrevious True a st (todo_id (S ! k)))) = busyId st \<and>
            editingId (fst (nestFocusedSelectionIntoPrevious True a st (todo_id (S ! k)))) = editingId st)"
proof -
  let ?T = "S ! k" and ?P = "S ! (k - 1)"
  let ?next = "normalizePositions (S[k := ?T\<lparr>parent_id := N\<rparr>])"
  have sfa: "selectedForAction st (todo_id ?T) = []" using sel by (simp add: selectedForAction_def)
  have comp: "compactSelectionAtAnchor S [] (todo_id ?T) = Some (S, [?T], int k)"
    using d k by (rule compactSelectionAtAnchor_single)
  have idx: "nat (int k - 1) = k - 1" by simp
  have kne: "int k \<noteq> 0" using k0 by simp
  have inr: "\<not> length S \<le> k - 1" using k by simp
  have np: "(if truthy (parent_id ?P)
             then (if truthy (parent_id ?P) \<and> list_all (\<lambda>todo. parent_id todo = parent_id ?P) [?T]
                   then Some (todo_id ?P) else parent_id ?P)
             else Some (todo_id ?P)) = N"
    unfolding N by simp
  have nx: "normalizePositions
              (map (\<lambda>todo. if todo_id todo \<notin> set (map todo_id [?T]) then todo
                            else todo\<lparr>parent_id := N\<rparr>) S) = ?next"
    using d k by (simp only: reparent_block_single)
  have ch: "rows_differ ?next S \<longleftrightarrow> parent_id ?T \<noteq> N"
    using k by (rule rows_differ_reparent)
  from update_parents_accepted[OF acc] obtain us where
    up: "update_parents a
           (map (\<lambda>todoId. (todoId, case find (\<lambda>todo. todo_id todo = todoId) ?next of
                                      None \<Rightarrow> None | Some updatedTodo \<Rightarrow> parent_id updatedTodo))
                (map todo_id [?T])) = Fulfilled us"
    by blast
  have unfolded: "nestFocusedSelectionIntoPrevious True a st (todo_id ?T) =
      (if \<not> rows_differ ?next S then (st, [])
       else (let st1 = render (st\<lparr>todos := ?next, error := None\<rparr>);
                 updates = map (\<lambda>todoId. (todoId, case find (\<lambda>todo. todo_id todo = todoId) ?next of
                                      None \<Rightarrow> None | Some updatedTodo \<Rightarrow> parent_id updatedTodo))
                             (map todo_id [?T])
             in case update_parents a updates of
                  Fulfilled us \<Rightarrow>
                    (let persisted = persistCurrentOrder a st1
                     in (fst persisted, parent_update_calls updates @ snd persisted))
                | Rejected m \<Rightarrow>
                    (render (st1\<lparr>todos := S, error := Some m\<rparr>), parent_update_calls updates)))"
    unfolding nestFocusedSelectionIntoPrevious_def
    using busy edit
    by (simp only: ref sfa comp Let_def option.case prod.case idx kne inr np nx if_False if_True
        simp_thms)
  have 1: "parent_id ?T = N \<longrightarrow> nestFocusedSelectionIntoPrevious True a st (todo_id ?T) = (st, [])"
    using ch by (simp add: unfolded)
  have 2: "parent_id ?T \<noteq> N \<longrightarrow>
      fst (nestFocusedSelectionIntoPrevious True a st (todo_id ?T)) =
        fst (persistCurrentOrder a (render (st\<lparr>todos := ?next, error := None\<rparr>)))"
    using ch up by (simp add: unfolded Let_def)
  show ?thesis
    using 1 2 sel by (simp add: persistCurrentOrder_fields render_def)
qed



lemma unnest_single:
  assumes d: "distinct (map todo_id X)" and k: "k < length X"
    and ref: "latestTodosRef st = X" and sel: "selectedTodoIds st = []"
    and busy: "\<not> truthy (busyId st)" and edit: "\<not> truthy (editingId st)"
    and acc: "\<forall>ident p. \<exists>t. api_updateTodo a ident p = Fulfilled t"
  shows "todos (fst (unnestFocusedSelectionOneLevel True a st (todo_id (X ! k)))) =
           (case unnest_update X (todo_id (X ! k)) of
              None \<Rightarrow> todos st
            | Some u \<Rightarrow> X[k := (X ! k)\<lparr>parent_id := snd u\<rparr>])"
proof (cases "unnest_update X (todo_id (X ! k))")
  case None
  then have "List.map_filter (unnest_update X) [todo_id (X ! k)] = []"
    by (simp add: List.map_filter_simps)
  moreover have "(if selectedTodoIds st \<noteq> [] \<and> todo_id (X ! k) \<in> set (selectedTodoIds st)
         then selectedTodoIds st else [todo_id (X ! k)]) = [todo_id (X ! k)]"
    using sel by simp
  ultimately have "unnestFocusedSelectionOneLevel True a st (todo_id (X ! k)) = (st, [])"
    unfolding unnestFocusedSelectionOneLevel_def Let_def ref using busy edit
    by (simp only:) simp
  then show ?thesis using None by simp
next
  case (Some u)
  then have mf: "List.map_filter (unnest_update X) [todo_id (X ! k)] = [u]"
    by (simp add: List.map_filter_simps)
  from Some have u1: "fst u = todo_id (X ! k)"
    by (auto simp: unnest_update_def Let_def split: option.splits if_splits)
  have nx: "map (\<lambda>todo. case map_of (rev [u]) (todo_id todo) of
                         Some p \<Rightarrow> todo\<lparr>parent_id := p\<rparr> | None \<Rightarrow> todo) X =
            X[k := (X ! k)\<lparr>parent_id := snd u\<rparr>]"
  proof -
    have "map (\<lambda>todo. case map_of (rev [u]) (todo_id todo) of
                         Some p \<Rightarrow> todo\<lparr>parent_id := p\<rparr> | None \<Rightarrow> todo) X =
          map (\<lambda>t. if todo_id t = todo_id (X ! k) then t\<lparr>parent_id := snd u\<rparr> else t) X"
      using u1 by (intro map_cong) (cases u, auto)
    also have "\<dots> = X[k := (X ! k)\<lparr>parent_id := snd u\<rparr>]"
      using d k by (rule map_update_id_distinct)
    finally show ?thesis .
  qed
  from update_parents_accepted[OF acc] obtain us where up: "update_parents a [u] = Fulfilled us"
    by blast
  have tg: "(if selectedTodoIds st \<noteq> [] \<and> todo_id (X ! k) \<in> set (selectedTodoIds st)
         then selectedTodoIds st else [todo_id (X ! k)]) = [todo_id (X ! k)]"
    using sel by simp
  have "unnestFocusedSelectionOneLevel True a st (todo_id (X ! k)) =
        (render (st\<lparr>todos := X[k := (X ! k)\<lparr>parent_id := snd u\<rparr>], error := None\<rparr>),
         parent_update_calls [u])"
    unfolding unnestFocusedSelectionOneLevel_def Let_def ref
    using busy edit
    by (simp only: tg mf nx up outcome.case) simp
  then show ?thesis using Some by (simp add: render_def)
qed

text \<open>
  Claim C4, as stated, fails on a well-formed tree: with \<open>H > G > P\<close> followed by the
  top-level task \<open>T\<close>, nesting \<open>T\<close> makes it a child of \<open>G\<close> (a sibling of \<open>P\<close>), and
  unnesting it then makes it a child of \<open>H\<close>, not top-level again.
\<close>

theorem nest_unnest_does_not_restore:
  "map parent_id chain_then_t = [None, Some ''H'', Some ''G'', None] \<and>
   map parent_id (todos (fst (nestFocusedSelectionIntoPrevious True accepting_api
                                (idle_ui chain_then_t) ''T''))) =
     [None, Some ''H'', Some ''G'', Some ''G''] \<and>
   map parent_id (todos (nest_then_unnest True accepting_api (idle_ui chain_then_t) ''T'')) =
     [None, Some ''H'', Some ''G'', Some ''H'']"
  by code_simp

text \<open>
  Claim C4, amended.  In a rendered list with distinct, non-empty ids, nothing busy,
  edited or selected, and a store that accepts the updates, let the target be at index
  \<open>k > 0\<close>.  Nest followed by unnest on the target keeps the order and the parent of every
  other task, and it gives the target its original parent back exactly in two cases:
  the target had the parent of the item just before it (both top-level, or both children
  of the same task); or that item has a parent \<open>h\<close> other than the target, and the target
  had the parent of \<open>h\<close> (null when \<open>h\<close> is not in the list).
\<close>

theorem nest_unnest_round_trip:
  assumes d: "distinct (map todo_id S)" and ne: "[] \<notin> set (map todo_id S)"
    and k0: "0 < k" and k: "k < length S"
    and t: "todos st = S" and ref: "latestTodosRef st = S" and sel: "selectedTodoIds st = []"
    and busy: "\<not> truthy (busyId st)" and edit: "\<not> truthy (editingId st)"
    and acc: "\<forall>ident p. \<exists>t. api_updateTodo a ident p = Fulfilled t"
  shows "map todo_id (todos (nest_then_unnest True a st (todo_id (S ! k)))) = map todo_id S \<and>
         (\<forall>i<length S. i \<noteq> k \<longrightarrow>
            parent_id (todos (nest_then_unnest True a st (todo_id (S ! k))) ! i) = parent_id (S ! i)) \<and>
         (parent_id (todos (nest_then_unnest True a st (todo_id (S ! k))) ! k) = parent_id (S ! k) \<longleftrightarrow>
            parent_id (S ! k) = parent_id (S ! (k - 1)) \<or>
            (truthy (parent_id (S ! (k - 1))) \<and>
             the (parent_id (S ! (k - 1))) \<noteq> todo_id (S ! k) \<and>
             ((the (parent_id (S ! (k - 1))) \<notin> set (map todo_id S) \<and> parent_id (S ! k) = None) \<or>
              (\<exists>j<length S. todo_id (S ! j) = the (parent_id (S ! (k - 1))) \<and>
                             parent_id (S ! k) = parent_id (S ! j)))))"
proof -
  let ?T = "S ! k" and ?P = "S ! (k - 1)"
  let ?o = "parent_id ?T" and ?q = "parent_id ?P"
  let ?tid = "todo_id ?T" and ?pid = "todo_id ?P"
  let ?st1 = "fst (nestFocusedSelectionIntoPrevious True a st ?tid)"
  let ?R = "nest_then_unnest True a st ?tid"
  define N where "N = (if truthy ?q then (if ?o = ?q then Some ?pid else ?q) else Some ?pid)"
  define X where "X = (if ?o = N then S else normalizePositions (S[k := ?T\<lparr>parent_id := N\<rparr>]))"
  note n = nest_single[OF d k0 k N_def ref sel busy edit acc]
  have k1: "k - 1 < length S" using k by simp
  have x1: "latestTodosRef ?st1 = X \<and> todos ?st1 = X \<and> selectedTodoIds ?st1 = [] \<and>
            \<not> truthy (busyId ?st1) \<and> \<not> truthy (editingId ?st1)"
  proof (cases "?o = N")
    case True
    with n have "?st1 = st" by simp
    with True show ?thesis using t ref sel busy edit by (simp add: X_def)
  next
    case False
    with n show ?thesis using busy edit by (simp add: X_def)
  qed
  have xlen: "length X = length S" by (simp add: X_def)
  have xid: "map todo_id X = map todo_id S"
    by (simp add: X_def map_update) (metis list_update_id map_update)
  have xk: "parent_id (X ! k) = N" using k by (simp add: X_def)
  have xo: "parent_id (X ! i) = parent_id (S ! i)" if "i < length S" and "i \<noteq> k" for i
    using that by (simp add: X_def nth_list_update)
  have xt: "todo_id (X ! i) = todo_id (S ! i)" if "i < length S" for i
    using xid that by (rule todo_id_nth_same)
  have dX: "distinct (map todo_id X)" using d by (simp only: xid)
  have kX: "k < length X" using k xlen by simp
  have "?pid \<in> set (map todo_id S)" using nth_mem[OF k1] by simp
  with ne have pne: "?pid \<noteq> []" by metis
  have tN: "truthy N" using pne by (auto simp: N_def truthy_def)
  then obtain h where h: "N = Some h" by (cases N) (auto simp: truthy_def)
  define g where "g = (case byId X h of None \<Rightarrow> None | Some par \<Rightarrow> parent_id par)"
  have bk: "byId X ?tid = Some (X ! k)"
    using byId_nth_distinct[OF dX kX] xt[OF k] by simp
  have uu: "unnest_update X ?tid = (if g = N then None else Some (?tid, g))"
    using tN by (simp add: unnest_update_def bk xk Let_def h g_def)
  have un: "todos (fst (unnestFocusedSelectionOneLevel True a ?st1 ?tid)) =
           (case unnest_update X ?tid of
              None \<Rightarrow> todos ?st1
            | Some u \<Rightarrow> X[k := (X ! k)\<lparr>parent_id := snd u\<rparr>])"
    using unnest_single[OF dX kX, of ?st1 a] x1 acc xt[OF k] by simp
  have fin: "todos ?R = (if g = N then X else X[k := (X ! k)\<lparr>parent_id := g\<rparr>])"
    using un x1 by (simp add: nest_then_unnest_def uu)
  have fid: "map todo_id (todos ?R) = map todo_id S"
    unfolding fin using xid by (simp add: map_update) (metis list_update_id map_update)
  have fo: "\<forall>i<length S. i \<noteq> k \<longrightarrow> parent_id (todos ?R ! i) = parent_id (S ! i)"
    unfolding fin using xo xlen by (simp add: nth_list_update)
  have fk: "parent_id (todos ?R ! k) = g"
    unfolding fin using kX xk by simp
  have g_self: "g = N" if "h = ?tid"
    using that bk xk by (simp add: g_def)
  have g_absent: "g = None" if "h \<notin> set (map todo_id S)"
  proof -
    from that have "h \<notin> set (map todo_id X)" unfolding xid .
    then have "byId X h = None" by (simp add: byId_None_iff)
    then show ?thesis by (simp add: g_def)
  qed
  have g_at: "g = parent_id (S ! j)" if "j < length S" and "todo_id (S ! j) = h" and "h \<noteq> ?tid" for j
  proof -
    have jk: "j \<noteq> k" using that(2,3) by auto
    have "byId X (todo_id (X ! j)) = Some (X ! j)"
      using dX that(1) xlen by (intro byId_nth_distinct) simp_all
    then have "byId X h = Some (X ! j)" using xt[OF that(1)] that(2) by simp
    then show ?thesis using xo[OF that(1) jk] by (simp add: g_def)
  qed
  have uniq: "j = j'" if "j < length S" "j' < length S" "todo_id (S ! j) = todo_id (S ! j')" for j j'
    using d that by (metis distinct_conv_nth length_map nth_map)
  have pk: "?pid \<noteq> ?tid"
  proof
    assume "?pid = ?tid"
    from uniq[OF k1 k this] k0 show False by simp
  qed
  have iff: "g = ?o \<longleftrightarrow>
            ?o = ?q \<or>
            (truthy ?q \<and> the ?q \<noteq> ?tid \<and>
             ((the ?q \<notin> set (map todo_id S) \<and> ?o = None) \<or>
              (\<exists>j<length S. todo_id (S ! j) = the ?q \<and> ?o = parent_id (S ! j))))"
  proof (cases "truthy ?q \<and> ?o \<noteq> ?q")
    case False
    then have "N = Some ?pid" by (auto simp: N_def)
    with h have hp: "h = ?pid" by simp
    have gq: "g = ?q" using g_at[OF k1] hp pk by simp
    show ?thesis
    proof (cases "truthy ?q")
      case True
      with False have "?o = ?q" by simp
      with gq show ?thesis by simp
    next
      case nt: False
      with gq show ?thesis by auto
    qed
  next
    case True
    then have tq: "truthy ?q" and oq: "?o \<noteq> ?q" by simp_all
    then have "N = ?q" by (simp add: N_def)
    with h have hq: "the ?q = h" and qh: "?q = Some h" by simp_all
    show ?thesis
    proof (cases "h = ?tid")
      case True
      with g_self have "g = ?q" using \<open>N = ?q\<close> by simp
      with oq True hq show ?thesis by auto
    next
      case nself: False
      show ?thesis
      proof (cases "h \<in> set (map todo_id S)")
        case False
        then have gn: "g = None" by (rule g_absent)
        have "\<not> (\<exists>j<length S. todo_id (S ! j) = h \<and> ?o = parent_id (S ! j))"
        proof
          assume "\<exists>j<length S. todo_id (S ! j) = h \<and> ?o = parent_id (S ! j)"
          then obtain j where "j < length S" and "todo_id (S ! j) = h" by blast
          then have "h \<in> set (map todo_id S)" using nth_mem[of j S] by auto
          with False show False by simp
        qed
        with gn oq tq nself False show ?thesis unfolding hq by auto
      next
        case True
        then obtain j where j: "j < length S" and tj: "todo_id (S ! j) = h"
          by (auto simp: in_set_conv_nth)
        have gj: "g = parent_id (S ! j)" using j tj nself by (rule g_at)
        have "(\<exists>j'<length S. todo_id (S ! j') = h \<and> ?o = parent_id (S ! j')) \<longleftrightarrow>
              ?o = parent_id (S ! j)"
        proof
          assume "\<exists>j'<length S. todo_id (S ! j') = h \<and> ?o = parent_id (S ! j')"
          then obtain j' where "j' < length S" "todo_id (S ! j') = h" "?o = parent_id (S ! j')"
            by blast
          with uniq[OF j, of j'] tj show "?o = parent_id (S ! j)" by simp
        next
          assume "?o = parent_id (S ! j)"
          with j tj show "\<exists>j'<length S. todo_id (S ! j') = h \<and> ?o = parent_id (S ! j')" by blast
        qed
        with gj oq tq nself True show ?thesis unfolding hq by auto
      qed
    qed
  qed
  show ?thesis using fid fo fk iff by simp
qed

theorem nest_unnest_round_trip_witness:
  "distinct (map todo_id h_g_t) \<and> [] \<notin> set (map todo_id h_g_t) \<and> (0::nat) < 2 \<and> 2 < length h_g_t \<and>
   todos (idle_ui h_g_t) = h_g_t \<and> latestTodosRef (idle_ui h_g_t) = h_g_t \<and>
   selectedTodoIds (idle_ui h_g_t) = [] \<and>
   \<not> truthy (busyId (idle_ui h_g_t)) \<and> \<not> truthy (editingId (idle_ui h_g_t)) \<and>
   (\<forall>ident p. \<exists>t. api_updateTodo accepting_api ident p = Fulfilled t) \<and>
   map todo_id h_g_t = [''H'', ''G'', ''T''] \<and>
   map parent_id h_g_t = [None, Some ''H'', None] \<and>
   map parent_id (todos (fst (nestFocusedSelectionIntoPrevious True accepting_api (idle_ui h_g_t) ''T'')))
     = [None, Some ''H'', Some ''H''] \<and>
   map todo_id (todos (nest_then_unnest True accepting_api (idle_ui h_g_t) ''T'')) =
     [''H'', ''G'', ''T''] \<and>
   parent_id (todos (nest_then_unnest True accepting_api (idle_ui h_g_t) ''T'') ! 2) = None \<and>
   map parent_id p_t = [None, None] \<and>
   parent_id (todos (nest_then_unnest True accepting_api (idle_ui p_t) ''T'') ! 1) = None \<and>
   map parent_id chain_then_t = [None, Some ''H'', Some ''G'', None] \<and>
   parent_id (todos (nest_then_unnest True accepting_api (idle_ui chain_then_t) ''T'') ! 3) \<noteq>
     parent_id (chain_then_t ! 3)"
proof -
  have acc: "\<forall>ident p. \<exists>t. api_updateTodo accepting_api ident p = Fulfilled t"
    by (simp add: accepting_api_def)
  have ui: "todos (idle_ui xs) = xs" "latestTodosRef (idle_ui xs) = xs"
    "selectedTodoIds (idle_ui xs) = []" "\<not> truthy (busyId (idle_ui xs))"
    "\<not> truthy (editingId (idle_ui xs))" for xs
    by (simp_all add: idle_ui_def truthy_def)
  have a1: "distinct (map todo_id h_g_t)" and a2: "[] \<notin> set (map todo_id h_g_t)"
    and a3: "(0::nat) < 2" and a4: "2 < length h_g_t"
    by (simp_all add: h_g_t_def task_def)
  have aid: "map todo_id h_g_t = [''H'', ''G'', ''T'']"
    and apar: "map parent_id h_g_t = [None, Some ''H'', None]"
    by (simp_all add: h_g_t_def task_def)
  have ae: "todo_id (h_g_t ! 2) = ''T''" "parent_id (h_g_t ! 2) = None"
    "parent_id (h_g_t ! (2 - 1)) = Some ''H''" "todo_id (h_g_t ! 0) = ''H''"
    "parent_id (h_g_t ! 0) = None" "(0::nat) < length h_g_t"
    by (simp_all add: h_g_t_def task_def)
  note ra = nest_unnest_round_trip[OF a1 a2 a3 a4 ui(1) ui(2) ui(3) ui(4) ui(5) acc]
  have an: "map parent_id (todos (fst (nestFocusedSelectionIntoPrevious True accepting_api
              (idle_ui h_g_t) ''T''))) = [None, Some ''H'', Some ''H'']"
    by code_simp
  have a5: "map todo_id (todos (nest_then_unnest True accepting_api (idle_ui h_g_t) ''T'')) =
              [''H'', ''G'', ''T'']"
    using ra[THEN conjunct1] unfolding ae aid .
  have "\<exists>j<length h_g_t. todo_id (h_g_t ! j) = the (parent_id (h_g_t ! (2 - 1))) \<and>
          parent_id (h_g_t ! 2) = parent_id (h_g_t ! j)"
    using ae by (intro exI[of _ 0]) simp
  moreover have "truthy (parent_id (h_g_t ! (2 - 1)))"
    and "the (parent_id (h_g_t ! (2 - 1))) \<noteq> todo_id (h_g_t ! 2)"
    using ae by (simp_all add: truthy_def)
  ultimately have "parent_id (todos (nest_then_unnest True accepting_api (idle_ui h_g_t)
        (todo_id (h_g_t ! 2))) ! 2) = parent_id (h_g_t ! 2)"
    using ra[THEN conjunct2, THEN conjunct2] by blast
  then have a6: "parent_id (todos (nest_then_unnest True accepting_api (idle_ui h_g_t) ''T'') ! 2) = None"
    unfolding ae .
  have b1: "distinct (map todo_id p_t)" and b2: "[] \<notin> set (map todo_id p_t)"
    and b3: "(0::nat) < 1" and b4: "1 < length p_t"
    by (simp_all add: p_t_def task_def)
  have bpar: "map parent_id p_t = [None, None]" by (simp add: p_t_def task_def)
  have be: "todo_id (p_t ! 1) = ''T''" "parent_id (p_t ! 1) = None" "parent_id (p_t ! (1 - 1)) = None"
    by (simp_all add: p_t_def task_def)
  note rb = nest_unnest_round_trip[OF b1 b2 b3 b4 ui(1) ui(2) ui(3) ui(4) ui(5) acc]
  have "parent_id (todos (nest_then_unnest True accepting_api (idle_ui p_t) (todo_id (p_t ! 1))) ! 1) =
        parent_id (p_t ! 1)"
    using rb[THEN conjunct2, THEN conjunct2] be by simp
  then have b5: "parent_id (todos (nest_then_unnest True accepting_api (idle_ui p_t) ''T'') ! 1) = None"
    unfolding be .
  have c1: "distinct (map todo_id chain_then_t)" and c2: "[] \<notin> set (map todo_id chain_then_t)"
    and c3: "(0::nat) < 3" and c4: "3 < length chain_then_t"
    by (simp_all add: chain_then_t_def task_def)
  have cpar: "map parent_id chain_then_t = [None, Some ''H'', Some ''G'', None]"
    by (simp add: chain_then_t_def task_def)
  have ce: "todo_id (chain_then_t ! 3) = ''T''" "parent_id (chain_then_t ! 3) = None"
    "parent_id (chain_then_t ! (3 - 1)) = Some ''G''"
    by (simp_all add: chain_then_t_def task_def)
  have clen: "length chain_then_t = 4" by (simp add: chain_then_t_def)
  note rc = nest_unnest_round_trip[OF c1 c2 c3 c4 ui(1) ui(2) ui(3) ui(4) ui(5) acc]
  have no_j: "\<not> (\<exists>j<length chain_then_t.
                  todo_id (chain_then_t ! j) = the (parent_id (chain_then_t ! (3 - 1))) \<and>
                  parent_id (chain_then_t ! 3) = parent_id (chain_then_t ! j))"
  proof
    assume "\<exists>j<length chain_then_t.
                  todo_id (chain_then_t ! j) = the (parent_id (chain_then_t ! (3 - 1))) \<and>
                  parent_id (chain_then_t ! 3) = parent_id (chain_then_t ! j)"
    then obtain j where j: "j < 4" and tj: "todo_id (chain_then_t ! j) = ''G''"
      and pj: "parent_id (chain_then_t ! j) = None"
      unfolding ce clen by auto
    from j have "j = 0 \<or> j = 1 \<or> j = 2 \<or> j = 3" by auto
    with tj pj show False by (auto simp: chain_then_t_def task_def)
  qed
  have cin: "the (parent_id (chain_then_t ! (3 - 1))) \<in> set (map todo_id chain_then_t)"
    unfolding ce by (simp add: chain_then_t_def task_def)
  have cne: "parent_id (chain_then_t ! 3) \<noteq> parent_id (chain_then_t ! (3 - 1))"
    unfolding ce by simp
  have "parent_id (todos (nest_then_unnest True accepting_api (idle_ui chain_then_t)
          (todo_id (chain_then_t ! 3))) ! 3) \<noteq> parent_id (chain_then_t ! 3)"
    using rc[THEN conjunct2, THEN conjunct2] no_j cin cne by blast
  then have c5: "parent_id (todos (nest_then_unnest True accepting_api (idle_ui chain_then_t) ''T'') ! 3) \<noteq>
     parent_id (chain_then_t ! 3)"
    unfolding ce(1) .
  show ?thesis
    by (intro conjI a1 a2 a3 a4 ui acc aid apar an a5 a6 bpar b5 cpar c5)
qed



section \<open>Repairing the parents of moved tasks\<close>

lemma indexById_nth_distinct:
  assumes "distinct (map todo_id xs)" and "i < length xs"
  shows "indexById xs (todo_id (xs ! i)) = int i"
proof -
  let ?n = "length xs"
  have d: "distinct (map todo_id (rev xs))" using assms(1) by (simp add: rev_map [symmetric])
  have l: "?n - 1 - i < length (rev xs)" using assms(2) by simp
  have e: "rev xs ! (?n - 1 - i) = xs ! i" using assms(2) by (simp add: rev_nth)
  from findIndex_nth_distinct[OF d l]
  have "findIndex (\<lambda>t. todo_id t = todo_id (xs ! i)) (rev xs) = int (?n - 1 - i)"
    by (simp only: e)
  then show ?thesis using assms(2) by (simp add: indexById_def Let_def)
qed

text \<open>
  A collection whose ids are distinct, in which no parent reference is the empty string,
  and in which \<open>rank\<close> decreases from every task to its parent: no task is its own
  ancestor.
\<close>

definition well_formed :: "(string \<Rightarrow> nat) \<Rightarrow> TodoRecord list \<Rightarrow> bool" where
  "well_formed rank xs =
     (distinct (map todo_id xs) \<and>
      (\<forall>t \<in> set xs. parent_id t \<noteq> Some [] \<and>
                     (\<forall>p. parent_id t = Some p \<longrightarrow> rank p < rank (todo_id t))))"

text \<open>The parent of the task at index \<open>i\<close> is null or the id of a task at an earlier index.\<close>

definition parent_before :: "TodoRecord list \<Rightarrow> nat \<Rightarrow> bool" where
  "parent_before xs i =
     (parent_id (xs ! i) = None \<or> (\<exists>j<i. parent_id (xs ! i) = Some (todo_id (xs ! j))))"

lemma well_formed_truthy:
  "well_formed rank xs \<Longrightarrow> t \<in> set xs \<Longrightarrow> truthy (parent_id t) \<longleftrightarrow> parent_id t \<noteq> None"
  by (cases "parent_id t") (auto simp: well_formed_def truthy_def)

lemma well_formed_update:
  assumes wf: "well_formed rank xs" and ti: "ti < length xs"
    and p: "q \<noteq> Some []" "\<forall>p. q = Some p \<longrightarrow> rank p < rank (todo_id (xs ! ti))"
  shows "well_formed rank (xs[ti := (xs ! ti)\<lparr>parent_id := q\<rparr>])"
proof -
  have ids: "map todo_id (xs[ti := (xs ! ti)\<lparr>parent_id := q\<rparr>]) = map todo_id xs"
    using ti by (simp add: map_update) (metis list_update_id map_update)
  have "\<forall>t \<in> set (xs[ti := (xs ! ti)\<lparr>parent_id := q\<rparr>]).
           parent_id t \<noteq> Some [] \<and> (\<forall>p. parent_id t = Some p \<longrightarrow> rank p < rank (todo_id t))"
  proof
    fix t assume "t \<in> set (xs[ti := (xs ! ti)\<lparr>parent_id := q\<rparr>])"
    then have "t = (xs ! ti)\<lparr>parent_id := q\<rparr> \<or> t \<in> set xs"
      using set_update_subset_insert[of xs ti] by auto
    then show "parent_id t \<noteq> Some [] \<and> (\<forall>p. parent_id t = Some p \<longrightarrow> rank p < rank (todo_id t))"
      using p wf by (auto simp: well_formed_def)
  qed
  with wf ids show ?thesis by (simp add: well_formed_def)
qed

lemma climb_parents_returns:
  assumes "well_formed rank xs" and "ti < length xs"
  shows "\<exists>ys c. climb_parents xs ti changed = Some (ys, c) \<and> well_formed rank ys \<and>
           map todo_id ys = map todo_id xs \<and>
           (\<forall>i<length xs. i \<noteq> ti \<longrightarrow> ys ! i = xs ! i) \<and> parent_before ys ti"
  using assms
proof (induction "case parent_id (xs ! ti) of None \<Rightarrow> 0 | Some p \<Rightarrow> Suc (rank p)"
       arbitrary: xs changed rule: less_induct)
  case less
  let ?todo = "xs ! ti"
  have mem: "?todo \<in> set xs" using less.prems(2) by simp
  have d: "distinct (map todo_id xs)" using less.prems(1) by (simp add: well_formed_def)
  show ?case
  proof (cases "parent_id ?todo")
    case None
    then have "climb_parents xs ti changed = Some (xs, changed)"
      by (subst climb_parents.simps) (simp add: truthy_def)
    with None less.prems show ?thesis by (simp add: parent_before_def)
  next
    case (Some p)
    then have tr: "truthy (parent_id ?todo)"
      using well_formed_truthy[OF less.prems(1) mem] by simp
    have rp: "rank p < rank (todo_id ?todo)"
      using less.prems(1) mem Some by (auto simp: well_formed_def)
    show ?thesis
    proof (cases "byId xs p")
      case None
      let ?ys = "xs[ti := ?todo\<lparr>parent_id := None\<rparr>]"
      have r: "climb_parents xs ti changed = Some (?ys, True)"
        using tr Some None by (subst climb_parents.simps) simp
      have w: "well_formed rank ?ys" using less.prems by (intro well_formed_update) simp_all
      have ids: "map todo_id ?ys = map todo_id xs"
        using less.prems(2) by (simp add: map_update) (metis list_update_id map_update)
      show ?thesis using r w ids less.prems(2) by (auto simp: parent_before_def)
    next
      case found: (Some parent)
      from byId_Some_member[OF found] have pm: "parent \<in> set xs" and pid: "todo_id parent = p"
        by simp_all
      from pm obtain j where j: "j < length xs" and pj: "xs ! j = parent"
        by (auto simp: in_set_conv_nth)
      have ij: "indexById xs (todo_id parent) = int j"
        using indexById_nth_distinct[OF d j] pj by simp
      have it: "indexById xs (todo_id ?todo) = int ti"
        using d less.prems(2) by (rule indexById_nth_distinct)
      show ?thesis
      proof (cases "j < ti")
        case True
        then have r: "climb_parents xs ti changed = Some (xs, changed)"
          using tr Some found ij it by (subst climb_parents.simps) (simp add: Let_def)
        have "parent_before xs ti"
          unfolding parent_before_def using True Some pj pid by auto
        with r less.prems show ?thesis by simp
      next
        case False
        let ?xs' = "xs[ti := ?todo\<lparr>parent_id := parent_id parent\<rparr>]"
        have r: "climb_parents xs ti changed = climb_parents ?xs' ti True"
          using tr Some found ij it False by (subst climb_parents.simps) (simp add: Let_def)
        have q1: "parent_id parent \<noteq> Some []"
          using less.prems(1) pm by (simp add: well_formed_def)
        have q2: "\<forall>q. parent_id parent = Some q \<longrightarrow> rank q < rank p"
          using less.prems(1) pm pid by (auto simp: well_formed_def)
        have w: "well_formed rank ?xs'"
          using less.prems q1 q2 rp by (intro well_formed_update) auto
        have len: "ti < length ?xs'" using less.prems(2) by simp
        have m: "(case parent_id (?xs' ! ti) of None \<Rightarrow> 0 | Some q \<Rightarrow> Suc (rank q))
                 < (case parent_id (xs ! ti) of None \<Rightarrow> 0 | Some q \<Rightarrow> Suc (rank q))"
          using less.prems(2) Some q2 by (cases "parent_id parent") simp_all
        from less.hyps[OF m w len, of True] obtain ys c where
          y: "climb_parents ?xs' ti True = Some (ys, c)" "well_formed rank ys"
             "map todo_id ys = map todo_id ?xs'"
             "\<forall>i<length ?xs'. i \<noteq> ti \<longrightarrow> ys ! i = ?xs' ! i" "parent_before ys ti"
          by blast
        have ids: "map todo_id ?xs' = map todo_id xs"
          using less.prems(2) by (simp add: map_update) (metis list_update_id map_update)
        show ?thesis using r y ids by auto
      qed
    qed
  qed
qed

lemma climb_parents_settled:
  assumes "well_formed rank xs" and "ti < length xs" and "parent_before xs ti"
  shows "climb_parents xs ti changed = Some (xs, changed)"
proof (cases "parent_id (xs ! ti)")
  case None
  then show ?thesis by (subst climb_parents.simps) (simp add: truthy_def)
next
  case (Some p)
  have d: "distinct (map todo_id xs)" using assms(1) by (simp add: well_formed_def)
  have mem: "xs ! ti \<in> set xs" using assms(2) by simp
  have tr: "truthy (parent_id (xs ! ti))"
    using well_formed_truthy[OF assms(1) mem] Some by simp
  from assms(3) Some obtain j where j: "j < ti" and pj: "p = todo_id (xs ! j)"
    by (auto simp: parent_before_def)
  have jl: "j < length xs" using j assms(2) by simp
  have b: "byId xs p = Some (xs ! j)" unfolding pj using d jl by (rule byId_nth_distinct)
  have ij: "indexById xs (todo_id (xs ! j)) = int j" using d jl by (rule indexById_nth_distinct)
  have it: "indexById xs (todo_id (xs ! ti)) = int ti" using d assms(2) by (rule indexById_nth_distinct)
  show ?thesis
    using tr Some b ij it j by (subst climb_parents.simps) (simp add: Let_def)
qed



lemma parent_before_transfer:
  assumes "map todo_id ys = map todo_id xs" and "i < length xs" and "ys ! i = xs ! i"
    and "parent_before xs i"
  shows "parent_before ys i"
proof (cases "parent_id (xs ! i)")
  case None
  with assms(3) show ?thesis by (simp add: parent_before_def)
next
  case (Some p)
  with assms(4) obtain j where j: "j < i" and p: "parent_id (xs ! i) = Some (todo_id (xs ! j))"
    by (auto simp: parent_before_def)
  have "todo_id (ys ! j) = todo_id (xs ! j)"
    using assms(1,2) j by (intro todo_id_nth_same) simp_all
  with j p assms(3) show ?thesis by (auto simp: parent_before_def)
qed

definition updates_hold :: "string set \<Rightarrow> TodoRecord list \<Rightarrow> (string \<times> string option) list \<Rightarrow> bool" where
  "updates_hold D xs ups =
     (\<forall>u \<in> set ups. fst u \<in> D \<and> (\<exists>i<length xs. todo_id (xs ! i) = fst u \<and> parent_id (xs ! i) = snd u))"

lemma normalize_loop_returns:
  assumes "well_formed rank xs"
    and "\<forall>i<length xs. todo_id (xs ! i) \<in> D \<longrightarrow> parent_before xs i"
    and "updates_hold D xs ups"
  shows "\<exists>ys ups'. normalize_loop ms xs ups = Some (ys, ups') \<and> well_formed rank ys \<and>
           map todo_id ys = map todo_id xs \<and>
           (\<forall>i<length ys. todo_id (ys ! i) \<in> D \<union> set ms \<longrightarrow> parent_before ys i) \<and>
           (\<forall>i<length xs. todo_id (xs ! i) \<notin> set ms \<longrightarrow> ys ! i = xs ! i) \<and>
           updates_hold (D \<union> set ms) ys ups'"
  using assms
proof (induction ms arbitrary: xs ups D)
  case Nil
  then show ?case by simp
next
  case (Cons m ms)
  have d: "distinct (map todo_id xs)" using Cons.prems(1) by (simp add: well_formed_def)
  show ?case
  proof (cases "byId xs m")
    case None
    then have absent: "m \<notin> set (map todo_id xs)" by (simp add: byId_None_iff)
    have step: "normalize_loop (m # ms) xs ups = normalize_loop ms xs ups" using None by simp
    have done': "\<forall>i<length xs. todo_id (xs ! i) \<in> insert m D \<longrightarrow> parent_before xs i"
    proof (intro allI impI)
      fix i assume i: "i < length xs" and mem: "todo_id (xs ! i) \<in> insert m D"
      have "todo_id (xs ! i) \<in> set (map todo_id xs)" using i by simp
      with absent have "todo_id (xs ! i) \<noteq> m" by metis
      with mem have "todo_id (xs ! i) \<in> D" by simp
      with Cons.prems(2) i show "parent_before xs i" by simp
    qed
    have ups': "updates_hold (insert m D) xs ups"
      using Cons.prems(3) unfolding updates_hold_def by blast
    have eq: "insert m D \<union> set ms = D \<union> set (m # ms)" by auto
    from Cons.IH[OF Cons.prems(1) done' ups'] obtain zs ups2 where
      z: "normalize_loop ms xs ups = Some (zs, ups2)" "well_formed rank zs"
         "map todo_id zs = map todo_id xs"
         "\<forall>i<length zs. todo_id (zs ! i) \<in> insert m D \<union> set ms \<longrightarrow> parent_before zs i"
         "\<forall>i<length xs. todo_id (xs ! i) \<notin> set ms \<longrightarrow> zs ! i = xs ! i"
         "updates_hold (insert m D \<union> set ms) zs ups2"
      by blast
    have u: "\<forall>i<length xs. todo_id (xs ! i) \<notin> set (m # ms) \<longrightarrow> zs ! i = xs ! i"
      using z(5) by simp
    show ?thesis
      unfolding step using z(1,2,3) z(4,6)[unfolded eq] u by blast
  next
    case (Some todo)
    from byId_Some_member[OF Some] obtain i0 where i0: "i0 < length xs" and x0: "xs ! i0 = todo"
      and tm: "todo_id todo = m"
      by (auto simp: in_set_conv_nth)
    have ti: "nat (indexById xs m) = i0"
      using indexById_nth_distinct[OF d i0] x0 tm by simp
    from climb_parents_returns[OF Cons.prems(1) i0, of False] obtain ys c where
      y: "climb_parents xs i0 False = Some (ys, c)" "well_formed rank ys"
         "map todo_id ys = map todo_id xs" "\<forall>i<length xs. i \<noteq> i0 \<longrightarrow> ys ! i = xs ! i"
         "parent_before ys i0"
      by blast
    define ups1 where "ups1 = (if c then ups @ [(m, parent_id (ys ! i0))] else ups)"
    have step: "normalize_loop (m # ms) xs ups = normalize_loop ms ys ups1"
      using Some by (simp add: ti y(1) ups1_def)
    have len: "length ys = length xs" using y(3) by (metis length_map)
    have keepD: "ys ! i = xs ! i" if "i < length xs" and "todo_id (xs ! i) \<in> D" for i
    proof (cases "i = i0")
      case False
      with y(4) that(1) show ?thesis by simp
    next
      case True
      with that Cons.prems(2) have "parent_before xs i0" by simp
      from climb_parents_settled[OF Cons.prems(1) i0 this, of False] y(1) True
      show ?thesis by simp
    qed
    have done': "\<forall>i<length ys. todo_id (ys ! i) \<in> insert m D \<longrightarrow> parent_before ys i"
    proof (intro allI impI)
      fix i assume i: "i < length ys" and mem: "todo_id (ys ! i) \<in> insert m D"
      have il: "i < length xs" using i len by simp
      have same: "todo_id (ys ! i) = todo_id (xs ! i)" using y(3) il by (rule todo_id_nth_same)
      show "parent_before ys i"
      proof (cases "i = i0")
        case True
        with y(5) show ?thesis by simp
      next
        case False
        have "map todo_id xs ! i \<noteq> map todo_id xs ! i0"
          using d il i0 False by (simp add: nth_eq_iff_index_eq del: nth_map)
        then have "todo_id (xs ! i) \<noteq> m" using il i0 x0 tm by simp
        with mem same have inD: "todo_id (xs ! i) \<in> D" by simp
        with Cons.prems(2) il have pb: "parent_before xs i" by simp
        have "ys ! i = xs ! i" using il inD by (rule keepD)
        with y(3) il show ?thesis using pb by (rule parent_before_transfer)
      qed
    qed
    have ups': "updates_hold (insert m D) ys ups1"
    proof -
      have old: "fst u \<in> insert m D \<and>
                 (\<exists>i<length ys. todo_id (ys ! i) = fst u \<and> parent_id (ys ! i) = snd u)"
        if "u \<in> set ups" for u
      proof -
        from Cons.prems(3) that obtain i where uD: "fst u \<in> D" and i: "i < length xs"
          and e: "todo_id (xs ! i) = fst u" "parent_id (xs ! i) = snd u"
          by (auto simp: updates_hold_def)
        have "ys ! i = xs ! i" using i uD e(1) by (intro keepD) simp_all
        with uD i e len show ?thesis by auto
      qed
      have new: "\<exists>i<length ys. todo_id (ys ! i) = m \<and> parent_id (ys ! i) = parent_id (ys ! i0)"
        using i0 len todo_id_nth_same[OF y(3) i0] x0 tm by auto
      show ?thesis
        unfolding updates_hold_def ups1_def
      proof (intro ballI)
        fix u assume "u \<in> set (if c then ups @ [(m, parent_id (ys ! i0))] else ups)"
        then have "u \<in> set ups \<or> u = (m, parent_id (ys ! i0))" by (auto split: if_splits)
        then show "fst u \<in> insert m D \<and>
                 (\<exists>i<length ys. todo_id (ys ! i) = fst u \<and> parent_id (ys ! i) = snd u)"
        proof
          assume "u \<in> set ups"
          then show ?thesis by (rule old)
        next
          assume "u = (m, parent_id (ys ! i0))"
          then show ?thesis using new by simp
        qed
      qed
    qed
    from Cons.IH[OF y(2) done' ups'] obtain zs ups2 where
      z: "normalize_loop ms ys ups1 = Some (zs, ups2)" "well_formed rank zs"
         "map todo_id zs = map todo_id ys"
         "\<forall>i<length zs. todo_id (zs ! i) \<in> insert m D \<union> set ms \<longrightarrow> parent_before zs i"
         "\<forall>i<length ys. todo_id (ys ! i) \<notin> set ms \<longrightarrow> zs ! i = ys ! i"
         "updates_hold (insert m D \<union> set ms) zs ups2"
      by blast
    have unchanged: "\<forall>i<length xs. todo_id (xs ! i) \<notin> set (m # ms) \<longrightarrow> zs ! i = xs ! i"
    proof (intro allI impI)
      fix i assume i: "i < length xs" and n: "todo_id (xs ! i) \<notin> set (m # ms)"
      have "i \<noteq> i0" using n x0 tm by auto
      with y(4) i have a: "ys ! i = xs ! i" by simp
      have "todo_id (ys ! i) \<notin> set ms" using a n by simp
      with z(5) i len have "zs ! i = ys ! i" by simp
      with a show "zs ! i = xs ! i" by simp
    qed
    have eq: "insert m D \<union> set ms = D \<union> set (m # ms)" by auto
    have ids: "map todo_id zs = map todo_id xs" using z(3) y(3) by simp
    show ?thesis
      unfolding step using z(1,2) ids z(4,6)[unfolded eq] unchanged by blast
  qed
qed

lemma normalizeMovedParentsAfterReorder_returns:
  assumes "well_formed rank items"
  shows "\<exists>next parentUpdates.
           normalizeMovedParentsAfterReorder items movedIds = Some (next, parentUpdates) \<and>
           well_formed rank next \<and> map todo_id next = map todo_id items \<and>
           (\<forall>i<length next. todo_id (next ! i) \<in> set movedIds \<longrightarrow> parent_before next i) \<and>
           (\<forall>i<length items. todo_id (items ! i) \<notin> set movedIds \<longrightarrow> next ! i = items ! i) \<and>
           updates_hold (set movedIds) next parentUpdates"
proof -
  have 1: "\<forall>i<length items. todo_id (items ! i) \<in> {} \<longrightarrow> parent_before items i" by simp
  have 2: "updates_hold {} items []" by (simp add: updates_hold_def)
  from normalize_loop_returns[OF assms 1 2, of movedIds]
  show ?thesis unfolding normalizeMovedParentsAfterReorder_def by simp
qed



lemma set_splice_insert [simp]: "set (splice_insert xs s ys) = set xs \<union> set ys"
proof -
  have "set (take (splice_start (length xs) s) xs) \<union> set (drop (splice_start (length xs) s) xs) = set xs"
    by (metis append_take_drop_id set_append)
  then show ?thesis by (auto simp: splice_insert_def Let_def)
qed

lemma length_splice_insert [simp]: "length (splice_insert xs s ys) = length xs + length ys"
proof -
  have "splice_start (length xs) s \<le> length xs" by (rule splice_start_le)
  then show ?thesis by (simp add: splice_insert_def Let_def)
qed

lemma filter_splice_insert:
  assumes "\<forall>x \<in> set xs. P x" and "\<forall>y \<in> set ys. \<not> P y"
  shows "filter P (splice_insert xs s ys) = xs"
proof -
  let ?u = "splice_start (length xs) s"
  have "filter P (take ?u xs) = take ?u xs" "filter P (drop ?u xs) = drop ?u xs"
    using assms(1) by (auto simp: filter_id_conv dest: in_set_takeD in_set_dropD)
  moreover have "filter P ys = []" using assms(2) by (simp add: filter_empty_conv)
  ultimately show ?thesis by (simp add: splice_insert_def Let_def)
qed

lemma select_block_filter:
  obtains q where "select_block items selectedIds activeId = filter (\<lambda>todo. q (todo_id todo)) items"
proof (cases "filter (\<lambda>todo. todo_id todo \<in> set selectedIds) items = []")
  case True
  show thesis
    by (rule that[of "\<lambda>k. k = activeId"]) (simp add: select_block_def True)
next
  case False
  show thesis
    by (rule that[of "\<lambda>k. k \<in> set selectedIds"]) (simp add: select_block_def False)
qed

lemma stationary_filter:
  "filter (\<lambda>todo. todo_id todo \<notin> set (map todo_id (filter (\<lambda>todo. q (todo_id todo)) items))) items =
   filter (\<lambda>todo. \<not> q (todo_id todo)) items"
  by (rule filter_cong) auto

text \<open>
  What \<^verbatim>\<open>compactAndMoveSelection\<close> returns is the input, or the input split into the
  block and the rest, with the block put back at some index and the positions renumbered.
\<close>

lemma compactAndMoveSelection_shape:
  obtains "fst (compactAndMoveSelection items selectedIds activeId offset) = items"
  | q s where "fst (compactAndMoveSelection items selectedIds activeId offset) =
      normalizePositions (splice_insert (filter (\<lambda>todo. \<not> q (todo_id todo)) items) s
                            (filter (\<lambda>todo. q (todo_id todo)) items))"
proof -
  obtain q where b: "select_block items selectedIds activeId = filter (\<lambda>todo. q (todo_id todo)) items"
    by (rule select_block_filter)
  let ?block = "filter (\<lambda>todo. q (todo_id todo)) items"
  let ?stat = "filter (\<lambda>todo. \<not> q (todo_id todo)) items"
  let ?anchor = "findIndex (\<lambda>todo. todo_id todo = todo_id (hd ?block)) items"
  have wb: "filter (\<lambda>todo. todo_id todo \<notin> set (map todo_id ?block)) (splice_insert ?stat s ?block) = ?stat" for s
    by (rule filter_splice_insert) auto
  have "fst (compactAndMoveSelection items selectedIds activeId offset) = items \<or>
        fst (compactAndMoveSelection items selectedIds activeId offset) =
          normalizePositions (splice_insert ?stat ?anchor ?block) \<or>
        fst (compactAndMoveSelection items selectedIds activeId offset) =
          normalizePositions (splice_insert ?stat (?anchor + offset) ?block)"
    unfolding compactAndMoveSelection_def Let_def b stationary_filter wb
    by (simp only: fst_conv split: if_splits) simp
  then show thesis using that by blast
qed

lemma set_filter_partition: "set (filter (\<lambda>x. \<not> P x) xs) \<union> set (filter P xs) = set xs"
  by auto

lemma well_formed_rearranged:
  assumes wf: "well_formed rank xs" and len: "length ys = length xs"
    and keys: "\<forall>t \<in> set ys. \<exists>t0 \<in> set xs. todo_id t = todo_id t0 \<and> parent_id t = parent_id t0"
    and ids: "set (map todo_id xs) \<subseteq> set (map todo_id ys)"
  shows "well_formed rank ys"
proof -
  have d: "distinct (map todo_id xs)" using wf by (simp add: well_formed_def)
  have "set (map todo_id ys) \<subseteq> set (map todo_id xs)" using keys by force
  with ids have "set (map todo_id ys) = set (map todo_id xs)" by blast
  then have "card (set (map todo_id ys)) = length (map todo_id ys)"
    using distinct_card[OF d] len by simp
  then have dy: "distinct (map todo_id ys)" by (rule card_distinct)
  have "\<forall>t \<in> set ys. parent_id t \<noteq> Some [] \<and> (\<forall>p. parent_id t = Some p \<longrightarrow> rank p < rank (todo_id t))"
  proof
    fix t assume "t \<in> set ys"
    with keys obtain t0 where "t0 \<in> set xs" "todo_id t = todo_id t0" "parent_id t = parent_id t0"
      by blast
    with wf show "parent_id t \<noteq> Some [] \<and> (\<forall>p. parent_id t = Some p \<longrightarrow> rank p < rank (todo_id t))"
      by (auto simp: well_formed_def)
  qed
  with dy show ?thesis by (simp add: well_formed_def)
qed

lemma in_set_normalizePositions:
  "t \<in> set (normalizePositions xs) \<Longrightarrow> \<exists>t0 \<in> set xs. todo_id t = todo_id t0 \<and> parent_id t = parent_id t0"
proof -
  assume "t \<in> set (normalizePositions xs)"
  then obtain i where i: "i < length xs" and t: "t = normalizePositions xs ! i"
    by (auto simp: in_set_conv_nth)
  have "xs ! i \<in> set xs" using i by simp
  moreover have "todo_id t = todo_id (xs ! i)" "parent_id t = parent_id (xs ! i)"
    using i t by simp_all
  ultimately show ?thesis by blast
qed

lemma compactAndMoveSelection_well_formed:
  assumes "well_formed rank items"
  shows "well_formed rank (fst (compactAndMoveSelection items selectedIds activeId offset))"
proof (cases rule: compactAndMoveSelection_shape[of items selectedIds activeId offset])
  case 1
  with assms show ?thesis by simp
next
  case (2 q s)
  let ?r = "splice_insert (filter (\<lambda>todo. \<not> q (todo_id todo)) items) s
              (filter (\<lambda>todo. q (todo_id todo)) items)"
  have sr: "set ?r = set items" by (simp only: set_splice_insert set_filter_partition)
  have lr: "length ?r = length items"
    using sum_length_filter_compl[of "\<lambda>todo. q (todo_id todo)" items] by simp
  have "well_formed rank (normalizePositions ?r)"
  proof (rule well_formed_rearranged[OF assms])
    show "length (normalizePositions ?r) = length items" using lr by simp
    show "\<forall>t \<in> set (normalizePositions ?r).
            \<exists>t0 \<in> set items. todo_id t = todo_id t0 \<and> parent_id t = parent_id t0"
      using in_set_normalizePositions[of _ ?r] unfolding sr by blast
    show "set (map todo_id items) \<subseteq> set (map todo_id (normalizePositions ?r))"
      by (simp only: map_todo_id_normalizePositions set_map sr)
  qed
  with 2 show ?thesis by simp
qed

text \<open>
  The block of a gesture whose selection, when there is one, holds the active task: the
  tasks whose id is selected, or the active task when nothing is selected.
\<close>

lemma select_block_moved:
  assumes "selectedIds \<noteq> [] \<longrightarrow> activeId \<in> set selectedIds"
  shows "select_block items selectedIds activeId =
           filter (\<lambda>todo. todo_id todo \<in> (if selectedIds \<noteq> [] then set selectedIds else {activeId}))
             items"
proof (cases "selectedIds = []")
  case True
  then show ?thesis by (simp add: select_block_def)
next
  case False
  with assms have a: "activeId \<in> set selectedIds" by simp
  show ?thesis
  proof (cases "filter (\<lambda>todo. todo_id todo \<in> set selectedIds) items = []")
    case True
    then have "\<forall>t \<in> set items. todo_id t \<notin> set selectedIds" by (simp add: filter_empty_conv)
    with a have "\<forall>t \<in> set items. todo_id t \<noteq> activeId" by metis
    then have "filter (\<lambda>todo. todo_id todo = activeId) items = []" by (simp add: filter_empty_conv)
    with True False show ?thesis by (simp add: select_block_def)
  next
    case nonempty: False
    with False show ?thesis by (simp add: select_block_def)
  qed
qed

lemma compactAndMoveSelection_block:
  assumes sel: "selectedIds \<noteq> [] \<longrightarrow> activeId \<in> set selectedIds"
    and B: "B = (if selectedIds \<noteq> [] then set selectedIds else {activeId})"
    and changed: "snd (compactAndMoveSelection items selectedIds activeId offset)"
  shows "\<exists>s. fst (compactAndMoveSelection items selectedIds activeId offset) =
           normalizePositions
             (take s (filter (\<lambda>todo. todo_id todo \<notin> B) items) @
              filter (\<lambda>todo. todo_id todo \<in> B) items @
              drop s (filter (\<lambda>todo. todo_id todo \<notin> B) items))"
proof -
  let ?block = "filter (\<lambda>todo. todo_id todo \<in> B) items"
  let ?stat = "filter (\<lambda>todo. todo_id todo \<notin> B) items"
  let ?anchor = "findIndex (\<lambda>todo. todo_id todo = todo_id (hd ?block)) items"
  have b: "select_block items selectedIds activeId = ?block"
    unfolding B using sel by (rule select_block_moved)
  have st: "filter (\<lambda>todo. todo_id todo \<notin> set (map todo_id ?block)) items = ?stat"
    by (rule filter_cong) auto
  have wb: "filter (\<lambda>todo. todo_id todo \<notin> set (map todo_id ?block)) (splice_insert ?stat s ?block) = ?stat"
    for s by (rule filter_splice_insert) auto
  have "fst (compactAndMoveSelection items selectedIds activeId offset) =
          normalizePositions (splice_insert ?stat ?anchor ?block) \<or>
        fst (compactAndMoveSelection items selectedIds activeId offset) =
          normalizePositions (splice_insert ?stat (?anchor + offset) ?block)"
    using changed unfolding compactAndMoveSelection_def Let_def b st wb
    by (auto split: if_splits)
  then show ?thesis unfolding splice_insert_def Let_def by blast
qed



lemma compactAndMoveSelection_keys:
  assumes "t \<in> set (fst (compactAndMoveSelection items selectedIds activeId offset))"
  shows "\<exists>t0 \<in> set items. todo_id t = todo_id t0 \<and> parent_id t = parent_id t0"
proof (cases rule: compactAndMoveSelection_shape[of items selectedIds activeId offset])
  case 1
  with assms show ?thesis by auto
next
  case (2 q s)
  let ?r = "splice_insert (filter (\<lambda>todo. \<not> q (todo_id todo)) items) s
              (filter (\<lambda>todo. q (todo_id todo)) items)"
  have sr: "set ?r = set items" by (simp only: set_splice_insert set_filter_partition)
  from assms 2 have "t \<in> set (normalizePositions ?r)" by simp
  from in_set_normalizePositions[OF this] show ?thesis unfolding sr .
qed

text \<open>
  How the repair may change the parent of the task at index \<open>i\<close> of the moved order \<open>M\<close>:
  \<open>climbs M i p f\<close> says that the reference \<open>f\<close> is reached from the reference \<open>p\<close> by
  going up the parent links of \<open>M\<close>, stepping only over tasks that are at index \<open>i\<close> or
  later, or by dropping a reference to a task that is not in \<open>M\<close>.
\<close>

inductive climbs :: "TodoRecord list \<Rightarrow> nat \<Rightarrow> string option \<Rightarrow> string option \<Rightarrow> bool"
  for M :: "TodoRecord list" and i :: nat where
  here: "climbs M i p p"
| absent: "q \<notin> set (map todo_id M) \<Longrightarrow> climbs M i (Some q) None"
| up: "j < length M \<Longrightarrow> todo_id (M ! j) = q \<Longrightarrow> i \<le> j \<Longrightarrow> climbs M i (parent_id (M ! j)) f \<Longrightarrow>
       climbs M i (Some q) f"

code_pred climbs .

lemma climbs_None: "climbs M i p f \<Longrightarrow> p = None \<Longrightarrow> f = None"
  by (induction rule: climbs.induct) simp_all

lemma climbs_trans: "climbs M i a b \<Longrightarrow> climbs M i b c \<Longrightarrow> climbs M i a c"
proof (induction rule: climbs.induct)
  case (here p)
  then show ?case .
next
  case (absent q)
  from climbs_None[OF absent(2)] have "c = None" by simp
  with absent(1) show ?case by (simp add: climbs.absent)
next
  case (up j q f)
  from up(5)[OF up(6)] have "climbs M i (parent_id (M ! j)) c" .
  with up(1,2,3) show ?case by (rule climbs.up)
qed

lemma climbs_mono: "climbs M i' a b \<Longrightarrow> i \<le> i' \<Longrightarrow> climbs M i a b"
proof (induction rule: climbs.induct)
  case (here p)
  show ?case by (rule climbs.here)
next
  case (absent q)
  then show ?case by (simp add: climbs.absent)
next
  case (up j q f)
  have "i \<le> j" using up(3,6) by simp
  with up(1,2) show ?case using up(5)[OF up(6)] by (rule climbs.up)
qed

text \<open>
  The result of the repair is determined: from a reference \<open>p\<close>, at most one reference
  that is null or the id of a task before index \<open>i\<close> (\<open>before M i\<close>) can be reached, the
  nearest one.
\<close>

lemma index_unique:
  "distinct (map todo_id M) \<Longrightarrow> j < length M \<Longrightarrow> j' < length M \<Longrightarrow>
   todo_id (M ! j) = todo_id (M ! j') \<Longrightarrow> j = j'"
  by (metis distinct_conv_nth length_map nth_map)

definition before :: "TodoRecord list \<Rightarrow> nat \<Rightarrow> string option \<Rightarrow> bool" where
  "before M i f = (f = None \<or> (\<exists>j<i. j < length M \<and> f = Some (todo_id (M ! j))))"

lemma before_not_absent: "before M i (Some q) \<Longrightarrow> q \<in> set (map todo_id M)"
  by (auto simp: before_def)

lemma before_not_later:
  assumes "distinct (map todo_id M)" and "before M i (Some q)"
    and "j < length M" and "todo_id (M ! j) = q"
  shows "j < i"
proof -
  from assms(2) obtain j' where j': "j' < i" "j' < length M" "q = todo_id (M ! j')"
    by (auto simp: before_def)
  from index_unique[OF assms(1,3) j'(2)] assms(4) j'(3) have "j = j'" by simp
  with j'(1) show ?thesis by simp
qed

inductive_cases climbs_SomeE: "climbs M i (Some q) f"

lemma climbs_determined:
  assumes "climbs M i p f" and "climbs M i p f'" and d: "distinct (map todo_id M)"
    and "before M i f" and "before M i f'"
  shows "f = f'"
  using assms(1,2,4,5)
proof (induction arbitrary: f' rule: climbs.induct)
  case (here p)
  show ?case
  proof (cases p)
    case None
    with climbs_None[OF here.prems(1)] show ?thesis by simp
  next
    case (Some q)
    from here.prems(2) Some have bq: "before M i (Some q)" by simp
    from here.prems(1)[unfolded Some] show ?thesis
    proof (rule climbs_SomeE)
      assume "f' = Some q"
      with Some show ?thesis by simp
    next
      assume "f' = None" and "q \<notin> todo_id ` set M"
      with before_not_absent[OF bq] show ?thesis by simp
    next
      fix j assume "j < length M" and "todo_id (M ! j) = q" and "i \<le> j"
      with before_not_later[OF d bq, of j] show ?thesis by simp
    qed
  qed
next
  case (absent q)
  from absent.prems(1) show ?case
  proof (rule climbs_SomeE)
    assume "f' = Some q"
    with absent.prems(3) have "q \<in> set (map todo_id M)" by (auto dest: before_not_absent)
    with absent.hyps show ?thesis by simp
  next
    assume "f' = None"
    then show ?thesis by simp
  next
    fix j assume "j < length M" and "todo_id (M ! j) = q"
    then have "q \<in> set (map todo_id M)" using nth_mem[of j M] by auto
    with absent.hyps show ?thesis by simp
  qed
next
  case (up j q f)
  from up.prems(1) show ?case
  proof (rule climbs_SomeE)
    assume "f' = Some q"
    with up.prems(3) have "before M i (Some q)" by simp
    from before_not_later[OF d this up.hyps(1,2)] up.hyps(3) show ?thesis by simp
  next
    assume "q \<notin> todo_id ` set M"
    moreover have "q \<in> set (map todo_id M)" using up.hyps(1,2) nth_mem[of j M] by auto
    ultimately show ?thesis by simp
  next
    fix j' assume j': "j' < length M" "todo_id (M ! j') = q"
      and c: "climbs M i (parent_id (M ! j')) f'"
    have "todo_id (M ! j) = todo_id (M ! j')" using up.hyps(2) j'(2) by simp
    with d up.hyps(1) j'(1) have "j = j'" by (rule index_unique)
    with c have "climbs M i (parent_id (M ! j)) f'" by simp
    from up.IH[OF this up.prems(2,3)] show ?thesis .
  qed
qed

text \<open>
  The invariant of the repair: the collection has the ids of the moved order \<open>M\<close>, and
  the parent of every task is reached from the parent it has in \<open>M\<close>.
\<close>

definition chain_ok :: "TodoRecord list \<Rightarrow> TodoRecord list \<Rightarrow> bool" where
  "chain_ok M xs =
     (map todo_id xs = map todo_id M \<and>
      (\<forall>k<length M. climbs M k (parent_id (M ! k)) (parent_id (xs ! k))))"

lemma map_todo_id_reparent:
  "map todo_id (xs[ti := (xs ! ti)\<lparr>parent_id := pp\<rparr>]) = map todo_id xs"
proof (rule nth_equalityI)
  show "length (map todo_id (xs[ti := (xs ! ti)\<lparr>parent_id := pp\<rparr>])) = length (map todo_id xs)"
    by simp
next
  fix i assume "i < length (map todo_id (xs[ti := (xs ! ti)\<lparr>parent_id := pp\<rparr>]))"
  then have "i < length xs" by simp
  then show "map todo_id (xs[ti := (xs ! ti)\<lparr>parent_id := pp\<rparr>]) ! i = map todo_id xs ! i"
    by (cases "i = ti") (simp_all add: nth_list_update)
qed

lemma chain_ok_length: "chain_ok M xs \<Longrightarrow> length xs = length M"
proof -
  assume "chain_ok M xs"
  then have "map todo_id xs = map todo_id M" by (simp add: chain_ok_def)
  then have "length (map todo_id xs) = length (map todo_id M)" by simp
  then show ?thesis by simp
qed

lemma chain_ok_refl: "chain_ok M M"
  by (simp add: chain_ok_def climbs.here)

lemma chain_ok_update:
  assumes "chain_ok M xs" and "ti < length xs"
    and "climbs M ti (parent_id (M ! ti)) pp"
  shows "chain_ok M (xs[ti := (xs ! ti)\<lparr>parent_id := pp\<rparr>])"
proof -
  have ids: "map todo_id (xs[ti := (xs ! ti)\<lparr>parent_id := pp\<rparr>]) = map todo_id M"
    using assms(1) by (simp only: map_todo_id_reparent chain_ok_def)
  have len: "length xs = length M" using assms(1) by (rule chain_ok_length)
  have "\<forall>k<length M. climbs M k (parent_id (M ! k))
          (parent_id (xs[ti := (xs ! ti)\<lparr>parent_id := pp\<rparr>] ! k))"
  proof (intro allI impI)
    fix k assume k: "k < length M"
    show "climbs M k (parent_id (M ! k)) (parent_id (xs[ti := (xs ! ti)\<lparr>parent_id := pp\<rparr>] ! k))"
    proof (cases "k = ti")
      case True
      with assms(2,3) show ?thesis by simp
    next
      case False
      with assms(1) k show ?thesis by (simp add: chain_ok_def)
    qed
  qed
  with ids show ?thesis by (simp add: chain_ok_def)
qed

lemma climb_parents_chain:
  assumes "climb_parents xs ti changed = Some r"
  shows "distinct (map todo_id M) \<longrightarrow> chain_ok M xs \<longrightarrow> ti < length xs \<longrightarrow> chain_ok M (fst r)"
proof (rule climb_parents.raw_induct[where P = "\<lambda>xs ti changed r.
         distinct (map todo_id M) \<longrightarrow> chain_ok M xs \<longrightarrow> ti < length xs \<longrightarrow> chain_ok M (fst r)",
       OF _ assms], goal_cases)
  case (1 climb "next" ti changed r)
  show ?case
  proof (intro impI)
    assume d: "distinct (map todo_id M)" and w: "chain_ok M next" and ti: "ti < length next"
    let ?todo = "next ! ti"
    have ids: "map todo_id next = map todo_id M" using w by (simp add: chain_ok_def)
    have len: "length next = length M" using w by (rule chain_ok_length)
    have dn: "distinct (map todo_id next)" using d by (simp only: ids)
    have cur: "climbs M ti (parent_id (M ! ti)) (parent_id ?todo)"
      using w ti len by (simp add: chain_ok_def)
    show "chain_ok M (fst r)"
    proof (cases "truthy (parent_id ?todo)")
      case False
      with 1(2) have "r = (next, changed)" by (simp add: Let_def)
      with w show ?thesis by simp
    next
      case True
      then obtain p where p: "parent_id ?todo = Some p"
        by (cases "parent_id ?todo") (auto simp: truthy_def)
      show ?thesis
      proof (cases "byId next p")
        case None
        with 1(2) True p have r: "r = (next[ti := ?todo\<lparr>parent_id := None\<rparr>], True)"
          by (simp add: Let_def)
        from None have "p \<notin> set (map todo_id M)" by (simp add: byId_None_iff ids)
        then have "climbs M ti (Some p) None" by (rule climbs.absent)
        with cur have "climbs M ti (parent_id (M ! ti)) None" unfolding p by (rule climbs_trans)
        with w ti have "chain_ok M (next[ti := ?todo\<lparr>parent_id := None\<rparr>])"
          by (rule chain_ok_update)
        with r show ?thesis by simp
      next
        case (Some parent)
        from byId_Some_member[OF Some] have pm: "parent \<in> set next" and pid: "todo_id parent = p"
          by simp_all
        from pm obtain j where j: "j < length next" and pj: "next ! j = parent"
          by (auto simp: in_set_conv_nth)
        have ij: "indexById next (todo_id parent) = int j"
          using indexById_nth_distinct[OF dn j] pj by simp
        have it: "indexById next (todo_id ?todo) = int ti"
          using dn ti by (rule indexById_nth_distinct)
        show ?thesis
        proof (cases "indexById next (todo_id parent) \<noteq> - 1 \<and>
                      indexById next (todo_id parent) < indexById next (todo_id ?todo)")
          case stop: True
          with 1(2) True p Some have "r = (next, changed)"
            by (auto simp: Let_def split: if_splits)
          with w show ?thesis by simp
        next
          case go: False
          let ?next' = "next[ti := ?todo\<lparr>parent_id := parent_id parent\<rparr>]"
          from 1(2) True p Some go have rec: "climb ?next' ti True = Some r"
            by (auto simp: Let_def split: if_splits)
          have nj: "ti \<le> j" using go unfolding ij it by simp
          have jM: "j < length M" using j len by simp
          have tj: "todo_id (M ! j) = p"
            using todo_id_nth_same[OF ids[symmetric] j] pj pid by simp
          have "climbs M j (parent_id (M ! j)) (parent_id (next ! j))"
            using w jM by (simp add: chain_ok_def)
          then have "climbs M ti (parent_id (M ! j)) (parent_id parent)"
            unfolding pj using nj by (rule climbs_mono)
          with jM tj nj have "climbs M ti (Some p) (parent_id parent)"
            by (rule climbs.up)
          with cur have "climbs M ti (parent_id (M ! ti)) (parent_id parent)"
            unfolding p by (rule climbs_trans)
          with w ti have w': "chain_ok M ?next'" by (rule chain_ok_update)
          from 1(1)[OF rec] d w' ti show ?thesis by simp
        qed
      qed
    qed
  qed
qed

lemma climb_parents_changed:
  assumes "climb_parents xs ti changed = Some r"
  shows "(fst r = xs \<and> snd r = changed) \<or> snd r"
proof (rule climb_parents.raw_induct[where P = "\<lambda>xs ti changed r.
         (fst r = xs \<and> snd r = changed) \<or> snd r", OF _ assms], goal_cases)
  case (1 climb "next" ti changed r)
  show ?case
  proof (cases "fst r = next \<and> snd r = changed")
    case True
    then show ?thesis by simp
  next
    case False
    let ?todo = "next ! ti"
    from False 1(2) have tr: "truthy (parent_id ?todo)"
      by (auto simp: Let_def split: if_splits)
    show ?thesis
    proof (cases "byId next (the (parent_id ?todo))")
      case None
      with 1(2) tr show ?thesis by (auto simp: Let_def)
    next
      case (Some parent)
      with False 1(2) tr
      have "climb (next[ti := ?todo\<lparr>parent_id := parent_id parent\<rparr>]) ti True = Some r"
        by (auto simp: Let_def split: if_splits)
      from 1(1)[OF this] show ?thesis by auto
    qed
  qed
qed

lemma normalize_loop_chain:
  assumes "normalize_loop ms xs ups = Some (ys, ups')" and "well_formed rank xs"
    and "chain_ok M xs"
    and "\<forall>i<length xs. parent_id (xs ! i) \<noteq> parent_id (M ! i) \<longrightarrow>
           (todo_id (xs ! i), parent_id (xs ! i)) \<in> set ups"
  shows "chain_ok M ys \<and>
         (\<forall>i<length ys. parent_id (ys ! i) \<noteq> parent_id (M ! i) \<longrightarrow>
            (todo_id (ys ! i), parent_id (ys ! i)) \<in> set ups')"
  using assms
proof (induction ms arbitrary: xs ups)
  case Nil
  then show ?case by simp
next
  case (Cons m ms)
  have d: "distinct (map todo_id xs)" using Cons.prems(2) by (simp add: well_formed_def)
  have ids: "map todo_id xs = map todo_id M" using Cons.prems(3) by (simp add: chain_ok_def)
  have dM: "distinct (map todo_id M)" using d by (simp only: ids)
  show ?case
  proof (cases "byId xs m")
    case None
    with Cons.prems(1) have "normalize_loop ms xs ups = Some (ys, ups')" by simp
    from Cons.IH[OF this Cons.prems(2,3,4)] show ?thesis .
  next
    case (Some todo)
    from byId_Some_member[OF Some] obtain i0 where i0: "i0 < length xs" and x0: "xs ! i0 = todo"
      and tm: "todo_id todo = m"
      by (auto simp: in_set_conv_nth)
    have ti: "nat (indexById xs m) = i0"
      using indexById_nth_distinct[OF d i0] x0 tm by simp
    from climb_parents_returns[OF Cons.prems(2) i0, of False] obtain zs c where
      z: "climb_parents xs i0 False = Some (zs, c)" "well_formed rank zs"
         "map todo_id zs = map todo_id xs" "\<forall>i<length xs. i \<noteq> i0 \<longrightarrow> zs ! i = xs ! i"
      by blast
    from climb_parents_chain[OF z(1), of M] dM Cons.prems(3) i0
    have w: "chain_ok M zs" by simp
    define ups1 where "ups1 = (if c then ups @ [(m, parent_id (zs ! i0))] else ups)"
    from Cons.prems(1) Some have step: "normalize_loop ms zs ups1 = Some (ys, ups')"
      by (simp add: ti z(1) ups1_def split: if_splits)
    have "length (map todo_id zs) = length (map todo_id xs)" using z(3) by simp
    then have len: "length zs = length xs" by simp
    have t0: "todo_id (zs ! i0) = m" using todo_id_nth_same[OF z(3) i0] x0 tm by simp
    have inv: "\<forall>i<length zs. parent_id (zs ! i) \<noteq> parent_id (M ! i) \<longrightarrow>
           (todo_id (zs ! i), parent_id (zs ! i)) \<in> set ups1"
    proof (intro allI impI)
      fix i assume i: "i < length zs" and ne: "parent_id (zs ! i) \<noteq> parent_id (M ! i)"
      show "(todo_id (zs ! i), parent_id (zs ! i)) \<in> set ups1"
      proof (cases "i = i0")
        case False
        with z(4) i len have "zs ! i = xs ! i" by simp
        with Cons.prems(4) i len ne have "(todo_id (zs ! i), parent_id (zs ! i)) \<in> set ups" by simp
        then show ?thesis by (simp add: ups1_def)
      next
        case True
        show ?thesis
        proof (cases c)
          case True
          with \<open>i = i0\<close> t0 show ?thesis by (simp add: ups1_def)
        next
          case False
          with climb_parents_changed[OF z(1)] have "zs = xs" by simp
          with Cons.prems(4) i ne have "(todo_id (zs ! i), parent_id (zs ! i)) \<in> set ups" by simp
          then show ?thesis by (simp add: ups1_def)
        qed
      qed
    qed
    from Cons.IH[OF step z(2) w inv] show ?thesis .
  qed
qed



lemma persistCurrentOrder_calls:
  "positioningAvailable st \<Longrightarrow>
   snd (persistCurrentOrder a st) = [CallUpdateTodoPositions (map todo_id (latestTodosRef st))]"
  by (simp add: persistCurrentOrder_def Let_def split: outcome.splits)

lemma parent_update_calls_explicit:
  "parent_update_calls ups =
     map (\<lambda>u. CallUpdateTodo (fst u)
                 \<lparr>patch_title = None, patch_is_completed = None, patch_position = None,
                  patch_parent_id = Some (snd u)\<rparr>) ups"
  by (simp add: parent_update_calls_def parent_patch_def empty_patch_def split_def)

lemma update_parents_fulfils:
  assumes "\<forall>u \<in> set ups. \<exists>t. api_updateTodo a (fst u)
              \<lparr>patch_title = None, patch_is_completed = None, patch_position = None,
               patch_parent_id = Some (snd u)\<rparr> = Fulfilled t"
  shows "\<exists>us. update_parents a ups = Fulfilled us"
  unfolding update_parents_def
proof (rule promise_all_fulfils, rule ballI)
  fix x assume "x \<in> set (map (\<lambda>(ident, p). api_updateTodo a ident (parent_patch p)) ups)"
  then obtain u where "u \<in> set ups" and "x = api_updateTodo a (fst u) (parent_patch (snd u))"
    by (auto simp: split_def)
  with assms show "\<exists>v. x = Fulfilled v"
    by (simp add: parent_patch_def empty_patch_def)
qed

lemma parent_before_before:
  assumes "parent_before ys i" and "map todo_id ys = map todo_id M" and "i < length M"
  shows "before M i (parent_id (ys ! i))"
proof (cases "parent_id (ys ! i)")
  case None
  then show ?thesis by (simp add: before_def)
next
  case (Some p)
  with assms(1) obtain j where j: "j < i" and p: "p = todo_id (ys ! j)"
    by (auto simp: parent_before_def)
  have jl: "j < length M" using j assms(3) by simp
  have "todo_id (ys ! j) = todo_id (M ! j)" using assms(2) jl by (rule todo_id_nth_same)
  with Some j jl p show ?thesis by (auto simp: before_def)
qed

lemma ids_differ_iff:
  "ids_differ xs items \<longleftrightarrow>
   (\<exists>i < length xs. length items \<le> i \<or> todo_id (xs ! i) \<noteq> todo_id (items ! i))"
  by (simp add: ids_differ_def map_indexed_def list_ex_map_from)

lemma ids_differ_same: "map todo_id xs = map todo_id items \<Longrightarrow> \<not> ids_differ xs items"
proof -
  assume e: "map todo_id xs = map todo_id items"
  then have "length (map todo_id xs) = length (map todo_id items)" by simp
  then have l: "length xs = length items" by simp
  have "todo_id (xs ! i) = todo_id (items ! i)" if "i < length xs" for i
    using e that l by (intro todo_id_nth_same) simp_all
  with l show ?thesis by (auto simp: ids_differ_iff)
qed

lemma compactAndMoveSelection_unchanged:
  "\<not> snd (compactAndMoveSelection items sel activeId offset) \<Longrightarrow>
   fst (compactAndMoveSelection items sel activeId offset) = items"
  by (auto simp: compactAndMoveSelection_def Let_def split: if_splits)

lemma compactAndMoveSelection_changed:
  "snd (compactAndMoveSelection items sel activeId offset) \<Longrightarrow>
   map todo_id (fst (compactAndMoveSelection items sel activeId offset)) \<noteq> map todo_id items"
  using ids_differ_same
  by (auto simp: compactAndMoveSelection_def Let_def split: if_splits)

lemma nth_insert_at: "j \<le> length W \<Longrightarrow> (take j W @ x # drop j W) ! j = x"
  by (simp add: nth_append)

lemma compactAndMoveSelection_single:
  assumes d: "distinct (map todo_id S)" and k: "k < length S"
    and o: "offset \<noteq> 0" "0 \<le> int k + offset" "int k + offset < int (length S)"
  shows "snd (compactAndMoveSelection S [] (todo_id (S ! k)) offset)"
    and "todo_id (fst (compactAndMoveSelection S [] (todo_id (S ! k)) offset) ! nat (int k + offset)) =
         todo_id (S ! k)"
    and "length (fst (compactAndMoveSelection S [] (todo_id (S ! k)) offset)) = length S"
proof -
  define W where "W = take k S @ drop (Suc k) S"
  define j where "j = nat (int k + offset)"
  define moved where "moved = take j W @ S ! k # drop j W"
  have b: "select_block S [] (todo_id (S ! k)) = [S ! k]"
    using d k by (simp add: select_block_def filter_same_id_distinct)
  have f: "findIndex (\<lambda>todo. todo_id todo = todo_id (S ! k)) S = int k"
    using d k by (rule findIndex_nth_distinct)
  have st: "filter (\<lambda>todo. todo_id todo \<noteq> todo_id (S ! k)) S = W"
    unfolding W_def using d k by (rule filter_other_id_distinct)
  have l: "length W = length S - 1" unfolding W_def using k by (rule length_remove_at)
  have u: "splice_start (length S - 1) (int k) = k" using k by (simp add: splice_start_def)
  have "splice_insert W (int k) [S ! k] = take k W @ [S ! k] @ drop k W"
    by (simp only: splice_insert_def Let_def l u)
  also have "\<dots> = take k S @ S ! k # drop (Suc k) S" unfolding W_def using k by simp
  also have "\<dots> = S" using k by (rule id_take_nth_drop [symmetric])
  finally have sp: "splice_insert W (int k) [S ! k] = S" .
  have jl: "j \<le> length S - 1" unfolding j_def using o k by simp
  have u2: "splice_start (length S - 1) (int k + offset) = j"
    using o jl unfolding j_def by (simp add: splice_start_def)
  have "splice_insert W (int k + offset) [S ! k] = take j W @ [S ! k] @ drop j W"
    by (simp only: splice_insert_def Let_def l u2)
  then have sp2: "splice_insert W (int k + offset) [S ! k] = moved" unfolding moved_def by simp
  have can: "(offset < 0 \<and> 0 < int k) \<or> (0 < offset \<and> int k + 1 < int (length S))"
    using o by arith
  have jk: "j \<noteq> k" unfolding j_def using o by simp
  have jn: "j < length S" unfolding j_def using o by simp
  have jw: "j \<le> length W" using jl unfolding l .
  have at: "moved ! j = S ! k" unfolding moved_def using jw by (rule nth_insert_at)
  have "length moved = Suc (length W)" unfolding moved_def using jw by (rule length_insert_at)
  then have lm: "length moved = length S" unfolding l using k by simp
  have "todo_id (S ! j) \<noteq> todo_id (S ! k)"
    using d jk jn k by (metis distinct_conv_nth length_map nth_map)
  then have diff: "ids_differ moved S"
    unfolding ids_differ_iff using at jn lm by (intro exI[of _ j]) simp
  have lW: "int (length W) = int (length S) - 1" using l k by simp
  have e: "compactAndMoveSelection S [] (todo_id (S ! k)) offset = (normalizePositions moved, True)"
    using can diff lW by (auto simp: compactAndMoveSelection_def b f st sp sp2 Let_def)
  show "snd (compactAndMoveSelection S [] (todo_id (S ! k)) offset)" by (simp add: e)
  have "j < length moved" using jn lm by simp
  then have "todo_id (normalizePositions moved ! j) = todo_id (moved ! j)" by simp
  then show "todo_id (fst (compactAndMoveSelection S [] (todo_id (S ! k)) offset) ! nat (int k + offset)) =
         todo_id (S ! k)"
    unfolding e fst_conv j_def[symmetric] at .
  show "length (fst (compactAndMoveSelection S [] (todo_id (S ! k)) offset)) = length S"
    using lm by (simp add: e)
qed

text \<open>
  The ids that \<^verbatim>\<open>moveFocusedSelectionByOffset\<close> hands on as moved (\<^verbatim>\<open>movedIds\<close>), and the
  order that \<^verbatim>\<open>compactAndMoveSelection\<close> gives it (\<^verbatim>\<open>moved.next\<close>).
\<close>

abbreviation movedIds :: "ui \<Rightarrow> string \<Rightarrow> string list" where
  "movedIds st activeId \<equiv>
     (if selectedForAction st activeId \<noteq> [] then selectedForAction st activeId else [activeId])"

abbreviation movedOrder :: "ui \<Rightarrow> string \<Rightarrow> int \<Rightarrow> TodoRecord list" where
  "movedOrder st activeId offset \<equiv>
     fst (compactAndMoveSelection (latestTodosRef st) (selectedForAction st activeId) activeId offset)"

lemma single_move_commits:
  assumes d: "distinct (map todo_id (latestTodosRef st))" and k: "k < length (latestTodosRef st)"
    and c: "env" "showCompleted st" "\<not> truthy (editingId st)" "\<not> truthy (busyId st)"
           "positioningAvailable st"
    and s: "activeId \<notin> set (selectedTodoIds st)"
    and a: "todo_id (latestTodosRef st ! k) = activeId"
    and o: "offset \<noteq> 0" "0 \<le> int k + offset" "int k + offset < int (length (latestTodosRef st))"
  shows "canReorderNested env st \<and>
         snd (compactAndMoveSelection (latestTodosRef st) (selectedForAction st activeId)
                activeId offset)"
    and "todo_id (movedOrder st activeId offset ! nat (int k + offset)) = activeId"
    and "length (movedOrder st activeId offset) = length (latestTodosRef st)"
proof -
  have e: "selectedForAction st activeId = []" using s by (simp add: selectedForAction_def)
  have r: "canReorderNested env st" using c by (simp add: canReorderNested_def)
  from compactAndMoveSelection_single[OF d k o]
  show "canReorderNested env st \<and>
         snd (compactAndMoveSelection (latestTodosRef st) (selectedForAction st activeId)
                activeId offset)"
    and "todo_id (movedOrder st activeId offset ! nat (int k + offset)) = activeId"
    and "length (movedOrder st activeId offset) = length (latestTodosRef st)"
    unfolding e a using r by simp_all
qed




text \<open>
  The repair looks at the moved tasks only.  When the task \<open>A\<close> moves down past its child
  \<open>B\<close>, the child, which is not in \<^verbatim>\<open>movedIds\<close>, stays a child of \<open>A\<close> and comes before it.
\<close>

lemma climb_parents_root:
  "\<not> truthy (parent_id (xs ! ti)) \<Longrightarrow> climb_parents xs ti changed = Some (xs, changed)"
  by (subst climb_parents.simps) simp

lemma move_leaves_passed_child_before_parent:
  "map todo_id a_ba = [''A'', ''B''] \<and> map parent_id a_ba = [None, Some ''A''] \<and>
   (\<exists>st' calls.
      moveFocusedSelectionByOffset True accepting_api (idle_ui a_ba) ''A'' 1 = Some (st', calls) \<and>
      map todo_id (todos st') = [''B'', ''A''] \<and>
      map parent_id (todos st') = [Some ''A'', None] \<and>
      calls = [CallUpdateTodoPositions [''B'', ''A'']] \<and>
      \<not> parent_before (todos st') 0)"
proof -
  let ?st = "idle_ui a_ba"
  let ?st1 = "?st\<lparr>latestTodosRef := ba_a, todos := ba_a, error := None\<rparr>"
  have h1: "canReorderNested True ?st"
    by (simp add: canReorderNested_def idle_ui_def truthy_def)
  have m: "movedIds ?st ''A'' = [''A'']"
    by (simp add: selectedForAction_def idle_ui_def)
  have c0: "compactAndMoveSelection (latestTodosRef ?st) (selectedForAction ?st ''A'') ''A'' 1 =
            (ba_a, True)"
    by code_simp
  have b: "byId ba_a ''A'' = Some (ba_a ! 1)" by code_simp
  have ix: "nat (indexById ba_a ''A'') = Suc 0" by code_simp
  have "\<not> truthy (parent_id (ba_a ! Suc 0))" by (simp add: ba_a_def task_def truthy_def)
  then have cl: "climb_parents ba_a (Suc 0) False = Some (ba_a, False)"
    by (rule climb_parents_root)
  have nl: "normalizeMovedParentsAfterReorder ba_a [''A''] = Some (ba_a, [])"
    by (simp add: normalizeMovedParentsAfterReorder_def b ix cl)
  have us: "update_parents accepting_api [] = Fulfilled []" by (simp add: update_parents_def)
  have e: "moveFocusedSelectionByOffset True accepting_api ?st ''A'' 1 =
           Some (fst (persistCurrentOrder accepting_api ?st1),
                 snd (persistCurrentOrder accepting_api ?st1) @ parent_update_calls [])"
    unfolding moveFocusedSelectionByOffset_def Let_def
    using h1 m by (simp add: c0 nl us)
  have pa: "positioningAvailable ?st1" by (simp add: idle_ui_def)
  have t: "todos (fst (persistCurrentOrder accepting_api ?st1)) = ba_a"
    using persistCurrentOrder_fields[of accepting_api ?st1] by simp
  have ids: "map todo_id ba_a = [''B'', ''A'']" and ps: "map parent_id ba_a = [Some ''A'', None]"
    by (simp_all add: ba_a_def task_def)
  have cs: "snd (persistCurrentOrder accepting_api ?st1) @ parent_update_calls [] =
            [CallUpdateTodoPositions [''B'', ''A'']]"
    using persistCurrentOrder_calls[OF pa, of accepting_api]
    by (simp add: parent_update_calls_def ids)
  have np: "\<not> parent_before ba_a 0" by (simp add: parent_before_def ba_a_def task_def)
  have ex: "\<exists>st' calls.
      moveFocusedSelectionByOffset True accepting_api ?st ''A'' 1 = Some (st', calls) \<and>
      map todo_id (todos st') = [''B'', ''A''] \<and>
      map parent_id (todos st') = [Some ''A'', None] \<and>
      calls = [CallUpdateTodoPositions [''B'', ''A'']] \<and>
      \<not> parent_before (todos st') 0"
    unfolding e cs
    by (intro exI[of _ "fst (persistCurrentOrder accepting_api ?st1)"]
          exI[of _ "[CallUpdateTodoPositions [''B'', ''A'']]"] conjI refl)
       (simp_all only: t ids ps np not_False_eq_True)
  have a1: "map todo_id a_ba = [''A'', ''B'']" and a2: "map parent_id a_ba = [None, Some ''A'']"
    by (simp_all add: a_ba_def task_def)
  show ?thesis by (intro conjI a1 a2 ex)
qed

end
